theory Spec2Isabelle
  imports Main "HOL-Library.FSet" "HOL-Library.Sublist"
begin

section \<open>Strings\<close>

text \<open>
  A Python \<open>str\<close> is a list of code points; a code point is an integer, as
  \<open>ord\<close> gives it (the negative ones and those above \<open>0x10FFFF\<close> are no
  characters). Bytes are kept as \<open>char\<close>. \<open>py\<close> reads an ASCII literal as a
  \<open>str\<close>.
\<close>

type_synonym str = "int list"

definition py :: "string \<Rightarrow> str" where
  "py x = map of_char x"

text \<open>The characters \<open>str.strip()\<close> removes, and the line boundaries of
  \<open>str.splitlines()\<close>.\<close>

definition is_space :: "int \<Rightarrow> bool" where
  "is_space c = (c \<in> set [0x09, 0x0A, 0x0B, 0x0C, 0x0D, 0x1C, 0x1D, 0x1E, 0x1F, 0x20,
                           0x85, 0xA0, 0x1680, 0x2000, 0x2001, 0x2002, 0x2003, 0x2004,
                           0x2005, 0x2006, 0x2007, 0x2008, 0x2009, 0x200A, 0x2028,
                           0x2029, 0x202F, 0x205F, 0x3000])"

definition is_linebreak :: "int \<Rightarrow> bool" where
  "is_linebreak c = (c \<in> set [0x0A, 0x0B, 0x0C, 0x0D, 0x1C, 0x1D, 0x1E, 0x85,
                               0x2028, 0x2029])"

text \<open>\<open>s.strip()\<close>\<close>

definition strip :: "str \<Rightarrow> str" where
  "strip s = rev (dropWhile is_space (rev (dropWhile is_space s)))"

text \<open>\<open>s.splitlines()\<close>: a carriage return followed by a line feed is one boundary, and
  no empty last line is produced after a final boundary.\<close>

fun splitlines :: "str \<Rightarrow> str list" where
  "splitlines [] = []"
| "splitlines [c] = (if is_linebreak c then [[]] else [[c]])"
| "splitlines (c # d # cs) =
     (if c = 0x0D \<and> d = 0x0A then [] # splitlines cs
      else if is_linebreak c then [] # splitlines (d # cs)
      else (case splitlines (d # cs) of
              [] \<Rightarrow> [[c]]
            | l # ls \<Rightarrow> (c # l) # ls))"

text \<open>\<open>sep.join(xs)\<close>\<close>

fun join :: "str \<Rightarrow> str list \<Rightarrow> str" where
  "join sep [] = []"
| "join sep [x] = x"
| "join sep (x # y # ys) = x @ sep @ join sep (y # ys)"

text \<open>\<open>s.split('#')[0]\<close>\<close>

definition split_hash_0 :: "str \<Rightarrow> str" where
  "split_hash_0 s = takeWhile (\<lambda>c. c \<noteq> 0x23) s"

section \<open>The parsed document\<close>

text \<open>
  The tree \<open>BeautifulSoup(response.content, 'html.parser')\<close> builds. A
  \<open>NavigableString\<close> is a str \<open>get_text\<close> collects; an \<open>OtherString\<close> is one it
  leaves out (a comment, a declaration, a doctype). A \<open>Tag\<close> has a name, its
  attributes and its children. The soup object itself is the list of top-level nodes.
\<close>

datatype node =
    NavigableString str
  | OtherString str
  | Tag str "(str \<times> str) list" "node list"

text \<open>\<open>for script in soup([...]): script.decompose()\<close>: every tag whose name is in the
  list leaves the tree, with all it contains.\<close>

fun decompose_all :: "str list \<Rightarrow> node list \<Rightarrow> node list" where
  "decompose_all names [] = []"
| "decompose_all names (NavigableString s # rest) = NavigableString s # decompose_all names rest"
| "decompose_all names (OtherString s # rest) = OtherString s # decompose_all names rest"
| "decompose_all names (Tag n attrs cs # rest) =
     (if n \<in> set names then decompose_all names rest
      else Tag n attrs (decompose_all names cs) # decompose_all names rest)"

text \<open>\<open>soup.find(name)\<close>: the first tag of that name in document order, or \<open>None\<close>.\<close>

fun find_tag :: "str \<Rightarrow> node list \<Rightarrow> node option" where
  "find_tag name [] = None"
| "find_tag name (NavigableString s # rest) = find_tag name rest"
| "find_tag name (OtherString s # rest) = find_tag name rest"
| "find_tag name (Tag n attrs cs # rest) =
     (if n = name then Some (Tag n attrs cs)
      else (case find_tag name cs of
              Some t \<Rightarrow> Some t
            | None \<Rightarrow> find_tag name rest))"

text \<open>The strings \<open>get_text\<close> walks over, in document order.\<close>

fun all_strings :: "node list \<Rightarrow> str list" where
  "all_strings [] = []"
| "all_strings (NavigableString s # rest) = s # all_strings rest"
| "all_strings (OtherString s # rest) = all_strings rest"
| "all_strings (Tag n attrs cs # rest) = all_strings cs @ all_strings rest"

text \<open>\<open>tag.get_text(separator, strip)\<close>, on the nodes below the tag: with \<open>strip\<close>
  every str is stripped and the empty ones are dropped.\<close>

definition get_text :: "str \<Rightarrow> bool \<Rightarrow> node list \<Rightarrow> str" where
  "get_text separator strp nodes =
     (if strp then join separator (filter (\<lambda>s. s \<noteq> []) (map strip (all_strings nodes)))
      else join separator (all_strings nodes))"

text \<open>The nodes below a node: the children of a tag, nothing below a str.\<close>

fun contents :: "node \<Rightarrow> node list" where
  "contents (Tag n attrs cs) = cs"
| "contents (NavigableString s) = []"
| "contents (OtherString s) = []"

text \<open>\<open>soup.find_all('a', href=True)\<close> followed by \<open>link['href']\<close>: the href values
  of all tags of that name that carry the attribute, in document order.\<close>

fun find_all_href :: "str \<Rightarrow> node list \<Rightarrow> str list" where
  "find_all_href name [] = []"
| "find_all_href name (NavigableString s # rest) = find_all_href name rest"
| "find_all_href name (OtherString s # rest) = find_all_href name rest"
| "find_all_href name (Tag n attrs cs # rest) =
     (case (if n = name then map_of attrs (py ''href'') else None) of
        Some href \<Rightarrow> href # find_all_href name cs @ find_all_href name rest
      | None \<Rightarrow> find_all_href name cs @ find_all_href name rest)"

section \<open>The environment\<close>

text \<open>
  What the program observes of the outside world. The \<open>trace\<close> of a crawl lists, in
  program order, every call of \<open>scrape_webpage\<close> with its outcome, every call of
  \<open>get_links\<close> and every append to \<open>to_visit\<close>; the source keeps no such list. The
  environment answers as a function of the trace so far, so that a server may answer
  the same request differently at different moments.
\<close>

datatype event =
    Fetch str int bool
  | LinkFetch str
  | Push str int

record response =
  status_code :: nat
  resp_content :: string

text \<open>
  \<open>http_get\<close> is \<open>requests.get(url, headers=headers, timeout=10)\<close>, \<open>None\<close> when it
  raises; \<open>html_parser\<close> is \<open>BeautifulSoup(_, 'html.parser')\<close>, from the bytes of
  \<open>response.content\<close>, \<open>None\<close> when the parser rejects the markup and raises;
  \<open>clock\<close> is
  \<open>datetime.now().isoformat()\<close>; \<open>urljoin\<close> is \<open>urllib.parse.urljoin\<close> and
  \<open>netloc\<close> is \<open>urlparse(_).netloc\<close>, each \<open>None\<close> when the call raises (a
  \<open>ValueError\<close> on a malformed URL). \<open>hash_order\<close> decides the order in which a
  Python set of strings is iterated: the elements are visited by increasing rank.
\<close>

record env =
  http_get :: "event list \<Rightarrow> str \<Rightarrow> response option"
  html_parser :: "string \<Rightarrow> node list option"
  clock :: "event list \<Rightarrow> str"
  urljoin :: "str \<Rightarrow> str \<Rightarrow> str option"
  netloc :: "str \<Rightarrow> str option"
  hash_order :: "event list \<Rightarrow> str \<Rightarrow> nat"

text \<open>\<open>response.raise_for_status()\<close> raises on the status codes 400 to 599.\<close>

definition raise_for_status :: "response \<Rightarrow> bool" where
  "raise_for_status response = (400 \<le> status_code response \<and> status_code response < 600)"

section \<open>Extraction (\<open>scrape_webpage\<close>, lines 21 to 49)\<close>

record crawl_record =
  url :: str
  title :: str
  content :: str
  length' :: int
  timestamp :: str

definition noise :: "str list" where
  "noise = [(py ''script''), (py ''style''), (py ''nav''), (py ''footer''), (py ''header'')]"

text \<open>Lines 28 and 29, on the soup the removals have left.\<close>

definition page_title :: "node list \<Rightarrow> str \<Rightarrow> str" where
  "page_title soup u =
     (case find_tag (py ''title'') soup of
        Some t \<Rightarrow> get_text [] False (contents t)
      | None \<Rightarrow> u)"

text \<open>Line 32: \<open>soup.find('main') or soup.find('article') or soup.body\<close>.\<close>

definition main_content :: "node list \<Rightarrow> node option" where
  "main_content soup =
     (case find_tag (py ''main'') soup of
        Some m \<Rightarrow> Some m
      | None \<Rightarrow> (case find_tag (py ''article'') soup of
                   Some a \<Rightarrow> Some a
                 | None \<Rightarrow> find_tag (py ''body'') soup))"

text \<open>Lines 34 to 37.\<close>

definition raw_text :: "node list \<Rightarrow> str" where
  "raw_text soup =
     (case main_content soup of
        Some m \<Rightarrow> get_text [0x0A] True (contents m)
      | None \<Rightarrow> get_text [0x0A] True soup)"

text \<open>Lines 40 and 41.\<close>

definition clean_lines :: "str \<Rightarrow> str list" where
  "clean_lines text = map strip (filter (\<lambda>line. strip line \<noteq> []) (splitlines text))"

definition clean_text :: "str \<Rightarrow> str" where
  "clean_text text = join [0x0A] (clean_lines text)"

definition scrape_webpage :: "env \<Rightarrow> event list \<Rightarrow> str \<Rightarrow> crawl_record option" where
  "scrape_webpage e tr u =
     (case http_get e tr u of
        None \<Rightarrow> None
      | Some response \<Rightarrow>
          if raise_for_status response then None
          else
            (case html_parser e (resp_content response) of
               None \<Rightarrow> None
             | Some document \<Rightarrow>
                 let soup = decompose_all noise document;
                     text = clean_text (raw_text soup)
                 in Some \<lparr>url = u, title = page_title soup u, content = text,
                          length' = int (length text), timestamp = clock e tr\<rparr>))"

section \<open>The single-page scraper of the chat layer (\<open>scrape_url\<close>)\<close>

datatype fetch_error = RequestException | HTTPError nat | ParserRejectedMarkup

record url_record =
  u_url :: str
  u_title :: str
  u_content :: str
  u_length :: int

text \<open>The dictionary with \<open>'success': True\<close> is \<open>Inr\<close>, the one with
  \<open>'success': False\<close>, the url and the error is \<open>Inl\<close>.\<close>

definition scrape_url :: "env \<Rightarrow> event list \<Rightarrow> str \<Rightarrow> (str \<times> fetch_error) + url_record" where
  "scrape_url e tr u =
     (case http_get e tr u of
        None \<Rightarrow> Inl (u, RequestException)
      | Some response \<Rightarrow>
          if raise_for_status response then Inl (u, HTTPError (status_code response))
          else
            (case html_parser e (resp_content response) of
               None \<Rightarrow> Inl (u, ParserRejectedMarkup)
             | Some document \<Rightarrow>
                 let soup = decompose_all noise document;
                     text = clean_text (raw_text soup)
                 in Inr \<lparr>u_url = u, u_title = page_title soup u, u_content = take 15000 text,
                         u_length = int (length text)\<rparr>))"

section \<open>Links (\<open>get_links\<close>)\<close>

text \<open>A Python set of strings is kept as the list of its elements, without
  repetition; \<open>links.add(x)\<close> changes nothing when \<open>x\<close> is there.\<close>

definition set_add :: "str \<Rightarrow> str list \<Rightarrow> str list" where
  "set_add x xs = (if x \<in> set xs then xs else xs @ [x])"

text \<open>The body of the loop of lines 66 to 74, \<open>None\<close> when one of its calls
  raises.\<close>

definition add_link :: "env \<Rightarrow> str \<Rightarrow> str list \<Rightarrow> str \<Rightarrow> str list option" where
  "add_link e base_url links href =
     (case urljoin e base_url href of
        None \<Rightarrow> None
      | Some full_url \<Rightarrow>
          (case netloc e full_url of
             None \<Rightarrow> None
           | Some n \<Rightarrow>
               (case netloc e base_url of
                  None \<Rightarrow> None
                | Some b \<Rightarrow>
                    Some (if n = b then set_add (split_hash_0 full_url) links else links))))"

text \<open>The loop of line 66 over the hrefs; it stops at the first call that raises.\<close>

fun add_links :: "env \<Rightarrow> str \<Rightarrow> str list \<Rightarrow> str list \<Rightarrow> str list option" where
  "add_links e base_url links [] = Some links"
| "add_links e base_url links (href # hrefs) =
     (case add_link e base_url links href of
        None \<Rightarrow> None
      | Some links' \<Rightarrow> add_links e base_url links' hrefs)"

text \<open>Whatever is raised inside \<open>get_links\<close> is caught and the empty set is
  returned (lines 77 to 79).\<close>

definition get_links :: "env \<Rightarrow> event list \<Rightarrow> str \<Rightarrow> str \<Rightarrow> str list" where
  "get_links e tr u base_url =
     (case http_get e tr u of
        None \<Rightarrow> []
      | Some response \<Rightarrow>
          (case html_parser e (resp_content response) of
             None \<Rightarrow> []
           | Some document \<Rightarrow>
               (case add_links e base_url [] (find_all_href (py ''a'') document) of
                  None \<Rightarrow> []
                | Some links \<Rightarrow> links)))"

section \<open>The crawl (\<open>scrape_website\<close>)\<close>

record crawl_state =
  visited :: "str fset"
  to_visit :: "(str \<times> int) list"
  results :: "crawl_record list"
  trace :: "event list"

text \<open>Lines 109 and 110, for one link.\<close>

definition push :: "int \<Rightarrow> crawl_state \<Rightarrow> str \<Rightarrow> crawl_state" where
  "push depth s link =
     (if link |\<notin>| visited s
      then s\<lparr>to_visit := to_visit s @ [(link, depth + 1)],
             trace := trace s @ [Push link (depth + 1)]\<rparr>
      else s)"

text \<open>Lines 92 to 110: one turn of the loop, on a state whose \<open>to_visit\<close> is not empty.\<close>

definition loop_body :: "env \<Rightarrow> str \<Rightarrow> int \<Rightarrow> crawl_state \<Rightarrow> crawl_state" where
  "loop_body e start_url max_depth s =
     (case to_visit s of
        [] \<Rightarrow> s
      | (u, depth) # rest \<Rightarrow>
          let s1 = s\<lparr>to_visit := rest\<rparr>
          in if u |\<in>| visited s1 \<or> depth > max_depth then s1
             else
               (case scrape_webpage e (trace s1) u of
                  None \<Rightarrow> s1\<lparr>trace := trace s1 @ [Fetch u depth False]\<rparr>
                | Some data \<Rightarrow>
                    let s2 = s1\<lparr>results := results s1 @ [data],
                                 visited := finsert u (visited s1),
                                 trace := trace s1 @ [Fetch u depth True]\<rparr>
                    in if depth < max_depth
                       then
                         let new_links = get_links e (trace s2) u start_url;
                             s3 = s2\<lparr>trace := trace s2 @ [LinkFetch u]\<rparr>
                         in foldl (push depth) s3 (sort_key (hash_order e (trace s3)) new_links)
                       else s2))"

definition loop_cond :: "int \<Rightarrow> crawl_state \<Rightarrow> bool" where
  "loop_cond max_pages s = (to_visit s \<noteq> [] \<and> int (fcard (visited s)) < max_pages)"

text \<open>The loop of line 91. The number of pages still allowed and the length of
  \<open>to_visit\<close> decrease lexicographically, so the loop ends on every input.\<close>

function scrape_loop :: "env \<Rightarrow> str \<Rightarrow> int \<Rightarrow> int \<Rightarrow> crawl_state \<Rightarrow> crawl_state" where
  "scrape_loop e start_url max_pages max_depth s =
     (if loop_cond max_pages s
      then scrape_loop e start_url max_pages max_depth (loop_body e start_url max_depth s)
      else s)"
  by pat_completeness auto
termination
proof (relation "measures
         [\<lambda>(e, start_url, max_pages, max_depth, s). nat (max_pages - int (fcard (visited s))),
          \<lambda>(e, start_url, max_pages, max_depth, s). length (to_visit s)]", goal_cases)
  case 1
  show ?case by simp
next
  case (2 e start_url max_pages max_depth s)
  have vis: "visited (foldl (push d) t xs) = visited t" for d t xs
    by (induction xs arbitrary: t) (simp_all add: push_def)
  from 2 obtain u depth rest where q: "to_visit s = (u, depth) # rest"
    by (cases "to_visit s") (auto simp: loop_cond_def)
  from 2 have lt: "int (fcard (visited s)) < max_pages"
    by (simp add: loop_cond_def)
  show ?case
    using q lt
    by (auto simp: loop_body_def Let_def vis fcard_finsert_disjoint split: option.splits)
qed

text \<open>The equation of the loop is applied by hand, one turn at a time.\<close>

declare scrape_loop.simps [simp del]

text \<open>Lines 84 to 86; the seed is the first entry created.\<close>

definition initial :: "str \<Rightarrow> crawl_state" where
  "initial start_url =
     \<lparr>visited = {||}, to_visit = [(start_url, 0)], results = [],
      trace = [Push start_url 0]\<rparr>"

definition crawl :: "env \<Rightarrow> str \<Rightarrow> int \<Rightarrow> int \<Rightarrow> crawl_state" where
  "crawl e start_url max_pages max_depth =
     scrape_loop e start_url max_pages max_depth (initial start_url)"

definition scrape_website :: "env \<Rightarrow> str \<Rightarrow> int \<Rightarrow> int \<Rightarrow> crawl_record list" where
  "scrape_website e start_url max_pages max_depth =
     results (crawl e start_url max_pages max_depth)"

section \<open>Reading a trace\<close>

text \<open>The calls of \<open>scrape_webpage\<close> in a trace, each with the depth of the entry it
  was made for and whether it returned a record.\<close>

fun fetches :: "event list \<Rightarrow> (str \<times> int \<times> bool) list" where
  "fetches [] = []"
| "fetches (Fetch u d b # tr) = (u, d, b) # fetches tr"
| "fetches (LinkFetch u # tr) = fetches tr"
| "fetches (Push u d # tr) = fetches tr"

text \<open>The entries appended to \<open>to_visit\<close>, the seed included.\<close>

fun pushes :: "event list \<Rightarrow> (str \<times> int) list" where
  "pushes [] = []"
| "pushes (Push u d # tr) = (u, d) # pushes tr"
| "pushes (Fetch u d b # tr) = pushes tr"
| "pushes (LinkFetch u # tr) = pushes tr"

text \<open>The URLs of the GET requests of a trace, in order: one for each call of
  \<open>scrape_webpage\<close> (line 18) and one for each call of \<open>get_links\<close> (line 62).\<close>

fun gets :: "event list \<Rightarrow> str list" where
  "gets [] = []"
| "gets (Fetch u d b # tr) = u # gets tr"
| "gets (LinkFetch u # tr) = u # gets tr"
| "gets (Push u d # tr) = gets tr"

text \<open>The URLs of the calls that returned a record, and the entries of all calls.\<close>

definition successes :: "event list \<Rightarrow> str list" where
  "successes tr = map fst (filter (\<lambda>(u, d, b). b) (fetches tr))"

definition attempts :: "event list \<Rightarrow> (str \<times> int) list" where
  "attempts tr = map (\<lambda>(u, d, b). (u, d)) (fetches tr)"

text \<open>A property of every call of \<open>scrape_webpage\<close> in a trace, in terms of the
  trace before the call.\<close>

definition each_fetch :: "(event list \<Rightarrow> str \<Rightarrow> int \<Rightarrow> bool) \<Rightarrow> event list \<Rightarrow> bool" where
  "each_fetch Q tr = (\<forall>pre u d b post. tr = pre @ Fetch u d b # post \<longrightarrow> Q pre u d)"

text \<open>A property of every call of \<open>get_links\<close> in a trace, in terms of the trace
  before the call.\<close>

definition each_link_fetch :: "(event list \<Rightarrow> str \<Rightarrow> bool) \<Rightarrow> event list \<Rightarrow> bool" where
  "each_link_fetch Q tr = (\<forall>pre u post. tr = pre @ LinkFetch u # post \<longrightarrow> Q pre u)"

text \<open>Every call of \<open>scrape_webpage\<close> that returned a record for an entry below the
  depth bound is followed at once by the call of \<open>get_links\<close> for the same URL.\<close>

definition followed :: "int \<Rightarrow> event list \<Rightarrow> bool" where
  "followed max_depth tr =
     (\<forall>pre u d post. tr = pre @ Fetch u d True # post \<and> d < max_depth \<longrightarrow>
        (\<exists>post'. post = LinkFetch u # post'))"

text \<open>Resolving the href against the base URL and reading both network
  locations raises nothing.\<close>

definition resolves :: "env \<Rightarrow> str \<Rightarrow> str \<Rightarrow> bool" where
  "resolves e base_url href =
     (case urljoin e base_url href of
        None \<Rightarrow> False
      | Some full_url \<Rightarrow> netloc e full_url \<noteq> None \<and> netloc e base_url \<noteq> None)"

text \<open>\<open>v\<close> is the link the href gives: the href resolves to a URL with the network
  location of the base URL, and \<open>v\<close> is that URL cut at the first \<open>#\<close>.\<close>

definition link_of :: "env \<Rightarrow> str \<Rightarrow> str \<Rightarrow> str \<Rightarrow> bool" where
  "link_of e base_url href v =
     (case urljoin e base_url href of
        None \<Rightarrow> False
      | Some full_url \<Rightarrow>
          netloc e full_url \<noteq> None \<and> netloc e full_url = netloc e base_url \<and>
          v = split_hash_0 full_url)"

text \<open>The entries the pushes of one page append: one for each link that is not in
  \<open>visited\<close>.\<close>

definition new_entries :: "int \<Rightarrow> crawl_state \<Rightarrow> str list \<Rightarrow> (str \<times> int) list" where
  "new_entries d s xs = map (\<lambda>x. (x, d + 1)) (filter (\<lambda>x. x |\<notin>| visited s) xs)"

text \<open>\<open>link_path e start_url d u\<close>: \<open>u\<close> is reached from the start URL by following
  \<open>d\<close> links, each one a link \<open>get_links\<close> returns for the page before it at some
  moment.\<close>

inductive link_path :: "env \<Rightarrow> str \<Rightarrow> int \<Rightarrow> str \<Rightarrow> bool" for e start_url where
  seed: "link_path e start_url 0 start_url"
| link: "link_path e start_url d u \<Longrightarrow> v \<in> set (get_links e tr u start_url) \<Longrightarrow>
         link_path e start_url (d + 1) v"



text \<open>The elements of a list in the order of their first occurrence.\<close>

definition first_occurrences :: "'a list \<Rightarrow> 'a list" where
  "first_occurrences xs = rev (remdups (rev xs))"

text \<open>A site that answers a request the same way at every moment, and the URLs
  \<open>scrape_webpage\<close> returns a record for on such a site.\<close>

definition static :: "env \<Rightarrow> bool" where
  "static e = (\<forall>tr u. http_get e tr u = http_get e [] u)"

definition scrape_ok :: "env \<Rightarrow> str \<Rightarrow> bool" where
  "scrape_ok e u = (scrape_webpage e [] u \<noteq> None)"

section \<open>Invariants of the loop\<close>

text \<open>The records, the visited set and the successful calls name the same URLs, each
  once.\<close>

definition inv_visited :: "crawl_state \<Rightarrow> bool" where
  "inv_visited s =
     (map url (results s) = successes (trace s) \<and>
      fset (visited s) = set (successes (trace s)) \<and>
      distinct (successes (trace s)))"

text \<open>No call is made for a URL that an earlier call returned a record for.\<close>

definition inv_fetch :: "crawl_state \<Rightarrow> bool" where
  "inv_fetch s =
     (inv_visited s \<and> each_fetch (\<lambda>pre u d. u \<notin> set (successes pre)) (trace s))"

text \<open>Every call of \<open>get_links\<close> comes right after the call of \<open>scrape_webpage\<close>
  that returned the record of the same URL, for an entry below the depth bound, and
  every such call of \<open>scrape_webpage\<close> is followed by it.\<close>

definition inv_link :: "int \<Rightarrow> crawl_state \<Rightarrow> bool" where
  "inv_link max_depth s =
     (each_link_fetch (\<lambda>pre u. \<exists>pre' d. pre = pre' @ [Fetch u d True] \<and> d < max_depth)
        (trace s) \<and>
      followed max_depth (trace s))"

text \<open>Every call is made while fewer than \<open>max_pages\<close> calls have returned a record.\<close>

definition inv_budget :: "int \<Rightarrow> crawl_state \<Rightarrow> bool" where
  "inv_budget max_pages s =
     (inv_visited s \<and> int (length (results s)) \<le> max_pages \<and>
      each_fetch (\<lambda>pre u d. int (length (successes pre)) < max_pages) (trace s))"

text \<open>Every entry ever appended is within the depth bound and lies on a link path of
  its depth; the queue and the calls only hold such entries.\<close>

definition inv_depth :: "env \<Rightarrow> str \<Rightarrow> int \<Rightarrow> crawl_state \<Rightarrow> bool" where
  "inv_depth e start_url max_depth s =
     ((\<forall>(u, d) \<in> set (pushes (trace s)). d \<le> max_depth \<and> link_path e start_url d u) \<and>
      set (to_visit s) \<subseteq> set (pushes (trace s)) \<and>
      set (attempts (trace s)) \<subseteq> set (pushes (trace s)))"

text \<open>The queue is what is left of the appended entries, the calls were made in the
  order of the entries taken from its head, and depths never decrease along the
  appended entries nor differ by more than one inside the queue.\<close>

definition inv_order :: "crawl_state \<Rightarrow> bool" where
  "inv_order s =
     ((\<exists>popped. pushes (trace s) = popped @ to_visit s \<and> subseq (attempts (trace s)) popped) \<and>
      sorted (map snd (pushes (trace s))) \<and>
      (\<forall>x \<in> set (pushes (trace s)). \<forall>y \<in> set (to_visit s). snd x \<le> snd y + 1))"

text \<open>Apart from the seed, every entry ever appended holds a link \<open>get_links\<close>
  returned for the start URL as base.\<close>

definition inv_origin :: "env \<Rightarrow> str \<Rightarrow> crawl_state \<Rightarrow> bool" where
  "inv_origin e start_url s =
     (\<exists>rest. pushes (trace s) = (start_url, 0) # rest \<and>
        (\<forall>(v, d) \<in> set rest. \<exists>tr u. v \<in> set (get_links e tr u start_url)))"

text \<open>The URLs in the order of their first fetch are among the URLs in the order
  of their first removal from the queue; an entry removed without a fetch of its URL
  so far is too deep.\<close>

definition inv_first :: "int \<Rightarrow> crawl_state \<Rightarrow> bool" where
  "inv_first max_depth s =
     (inv_visited s \<and> inv_order s \<and>
      (\<exists>popped. pushes (trace s) = popped @ to_visit s \<and>
         subseq (first_occurrences (map fst (attempts (trace s))))
                (first_occurrences (map fst popped)) \<and>
         (\<forall>(x, d) \<in> set popped. x \<in> set (map fst (attempts (trace s))) \<or> max_depth < d)))"

text \<open>On a static site the successful fetches are the first fetches of the URLs
  that can be scraped.\<close>

definition inv_static :: "env \<Rightarrow> crawl_state \<Rightarrow> bool" where
  "inv_static e s =
     (inv_visited s \<and>
      successes (trace s) =
        filter (scrape_ok e) (first_occurrences (map fst (attempts (trace s)))))"

section \<open>A small site\<close>

text \<open>
  A site of three pages on the host \<open>h\<close>, for the examples below. The start page
  links to \<open>/a\<close>, to \<open>/b\<close> and to another host; \<open>/b\<close> links to \<open>/a#top\<close>. All
  hrefs are absolute and the body of a page is its URL in ASCII: on an absolute href \<open>urljoin\<close> returns the href, and it raises
  when the host of the href opens a bracket that is not closed. The pages in
  \<open>failing\<close> answer with status 500.
\<close>

definition demo_urljoin :: "str \<Rightarrow> str \<Rightarrow> str option" where
  "demo_urljoin base href =
     (if 0x5B \<in> set href \<and> 0x5D \<notin> set href then None else Some href)"

definition demo_netloc :: "str \<Rightarrow> str option" where
  "demo_netloc u =
     Some (takeWhile (\<lambda>c. c \<notin> set (py ''/?#'')) (drop 2 (dropWhile (\<lambda>c. c \<noteq> 0x2F) u)))"

definition anchor :: "str \<Rightarrow> node" where
  "anchor href = Tag (py ''a'') [(py ''href'', href)] [NavigableString (py ''link'')]"

definition demo_site :: "string \<Rightarrow> node list" where
  "demo_site b =
     (if b = ''http://h/''
      then [anchor (py ''http://h/a''), anchor (py ''http://h/b''),
            anchor (py ''http://other/x'')]
      else if b = ''http://h/b'' then [anchor (py ''http://h/a#top'')]
      else [])"

definition demo_env :: "str list \<Rightarrow> env" where
  "demo_env failing =
     \<lparr>http_get = (\<lambda>tr u. Some \<lparr>status_code = (if u \<in> set failing then 500 else 200),
                                resp_content = map char_of u\<rparr>),
      html_parser = (\<lambda>b. Some (demo_site b)),
      clock = (\<lambda>tr. (py ''2024-01-01T00:00:00'')),
      urljoin = demo_urljoin,
      netloc = demo_netloc,
      hash_order = (\<lambda>tr u. 0)\<rparr>"

text \<open>The same site where the iteration of a set of links visits \<open>/b\<close> before any
  other link.\<close>

definition shuffled_env :: "str list \<Rightarrow> env" where
  "shuffled_env failing =
     (demo_env failing)\<lparr>hash_order := (\<lambda>tr u. if u = py ''http://h/b'' then 0 else 1)\<rparr>"

text \<open>The same site where \<open>/a\<close> answers with status 500 to the first request for it
  and with 200 to the later ones.\<close>

definition flaky_env :: env where
  "flaky_env =
     (demo_env [])\<lparr>http_get := (\<lambda>tr u.
        Some \<lparr>status_code =
                (if u = py ''http://h/a'' \<and> py ''http://h/a'' \<notin> set (map fst (attempts tr))
                 then 500 else 200),
              resp_content = map char_of u\<rparr>)\<rparr>"

text \<open>A site whose start page links to itself and to \<open>/a\<close>. The fragment of a URL
  is not sent with the request: the answer is the page of the URL without it.\<close>

definition home_site :: "string \<Rightarrow> node list" where
  "home_site b =
     (if b = ''http://h/'' then [anchor (py ''http://h/''), anchor (py ''http://h/a'')] else [])"

definition home_env :: env where
  "home_env =
     \<lparr>http_get = (\<lambda>tr u. Some \<lparr>status_code = 200, resp_content = map char_of (split_hash_0 u)\<rparr>),
      html_parser = (\<lambda>b. Some (home_site b)),
      clock = (\<lambda>tr. (py ''2024-01-01T00:00:00'')),
      urljoin = demo_urljoin,
      netloc = demo_netloc,
      hash_order = (\<lambda>tr u. 0)\<rparr>"

text \<open>An environment that answers every request with status 200 and one given
  document, and documents for it: a page of 15001 characters, a page whose only title
  element lies in a header, a page with a head, navigation, a main region and a
  footer, and a page with one href that cannot be resolved.\<close>

definition page_env :: "node list \<Rightarrow> env" where
  "page_env soup =
     \<lparr>http_get = (\<lambda>tr u. Some \<lparr>status_code = 200, resp_content = []\<rparr>),
      html_parser = (\<lambda>b. Some soup),
      clock = (\<lambda>tr. (py ''2024-01-01T00:00:00'')),
      urljoin = demo_urljoin,
      netloc = demo_netloc,
      hash_order = (\<lambda>tr u. 0)\<rparr>"

definition long_text :: str where
  "long_text = replicate 15001 (0x78)"

definition long_page :: "node list" where
  "long_page = [Tag (py ''body'') [] [NavigableString long_text]]"

definition header_page :: "node list" where
  "header_page =
     [Tag (py ''header'') [] [Tag (py ''title'') [] [NavigableString (py ''T'')]],
      Tag (py ''body'') [] [NavigableString (py ''x'')]]"

definition sample_page :: "node list" where
  "sample_page =
     [Tag (py ''html'') []
        [Tag (py ''head'') [] [Tag (py ''title'') [] [NavigableString (py ''Home'')]],
         Tag (py ''body'') []
           [Tag (py ''nav'') [] [NavigableString (py ''menu'')],
            Tag (py ''main'') []
              [NavigableString (py ''  Hello '' @ [0x0A] @ (py ''   world  '')),
               Tag (py ''script'') [] [NavigableString (py ''x()'')],
               Tag (py ''p'') [] [NavigableString (py '' bye '')]],
            Tag (py ''footer'') [] [NavigableString (py ''foot'')]]]]"

definition bad_href_page :: "node list" where
  "bad_href_page = [anchor (py ''http://h/a''), anchor (py ''http://[bad'')]"

text \<open>An environment that answers every request with a given status and an empty
  document.\<close>

definition status_env :: "nat \<Rightarrow> env" where
  "status_env code =
     (page_env [])\<lparr>http_get := (\<lambda>tr u. Some \<lparr>status_code = code, resp_content = []\<rparr>)\<rparr>"

section \<open>JSON (\<open>json.dump\<close>, \<open>json.load\<close>)\<close>

text \<open>
  \<open>save_results\<close> (lines 120 to 123) hands the results to \<open>json.dump\<close> and
  \<open>load_scraped_data\<close> (line 25 of \<open>chatbot_with_context.py\<close>) reads them with
  \<open>json.load\<close>. This section embeds what the two calls run through in Python's
  \<open>json\<close> package: the encoder of \<open>json/encoder.py\<close> for a list of dicts with
  \<open>indent=2\<close> and \<open>ensure_ascii=False\<close>, and the decoder of
  \<open>json/decoder.py\<close> and \<open>json/scanner.py\<close> for every document. Python bounds
  the nesting of a document by its recursion limit; here a number of calls is given
  to the decoder.
\<close>


subsection \<open>Encoding\<close>












subsection \<open>The file\<close>





subsection \<open>Decoding\<close>




















subsection \<open>The round trip\<close>







section \<open>Lemmas about strings\<close>

lemma py_eq_iff [simp]: "py x = py y \<longleftrightarrow> x = y"
  by (simp add: py_def inj_map_eq_map [OF inj_of_char])

lemma py_Nil [simp]: "py [] = []"
  by (simp add: py_def)

lemma py_eq_Nil [simp]: "py x = [] \<longleftrightarrow> x = []"
  by (simp add: py_def)


lemma length_py [simp]: "length (py x) = length x"
  by (simp add: py_def)

section \<open>Lemmas about the crawl\<close>

lemma fetches_append [simp]: "fetches (xs @ ys) = fetches xs @ fetches ys"
  by (induction xs rule: fetches.induct) simp_all

lemma pushes_append [simp]: "pushes (xs @ ys) = pushes xs @ pushes ys"
  by (induction xs rule: pushes.induct) simp_all

lemma successes_append [simp]: "successes (xs @ ys) = successes xs @ successes ys"
  by (simp add: successes_def)

lemma attempts_append [simp]: "attempts (xs @ ys) = attempts xs @ attempts ys"
  by (simp add: attempts_def)

lemma scrape_webpage_url: "scrape_webpage e tr u = Some r \<Longrightarrow> url r = u"
  by (auto simp: scrape_webpage_def Let_def split: option.splits if_splits)

lemma scrape_loop_invariant:
  assumes "P s"
    and "\<And>t. P t \<Longrightarrow> loop_cond max_pages t \<Longrightarrow> P (loop_body e start_url max_depth t)"
  shows "P (scrape_loop e start_url max_pages max_depth s)"
  using assms
proof (induction e start_url max_pages max_depth s rule: scrape_loop.induct)
  case (1 e start_url max_pages max_depth s)
  show ?case
  proof (cases "loop_cond max_pages s")
    case True
    have "P (loop_body e start_url max_depth s)"
      using "1.prems" True by blast
    then have "P (scrape_loop e start_url max_pages max_depth (loop_body e start_url max_depth s))"
      using "1.IH" [OF True] "1.prems"(2) by blast
    then show ?thesis
      using True by (subst scrape_loop.simps) simp
  next
    case False
    then show ?thesis
      using "1.prems"(1) by (subst scrape_loop.simps) simp
  qed
qed

lemma scrape_loop_exit: "\<not> loop_cond max_pages (scrape_loop e start_url max_pages max_depth s)"
proof (induction e start_url max_pages max_depth s rule: scrape_loop.induct)
  case (1 e start_url max_pages max_depth s)
  then show ?case
    by (subst scrape_loop.simps) simp
qed

text \<open>What the pushes of one page leave unchanged.\<close>

lemma foldl_push_visited [simp]: "visited (foldl (push d) s xs) = visited s"
  by (induction xs arbitrary: s) (simp_all add: push_def)

lemma foldl_push_results [simp]: "results (foldl (push d) s xs) = results s"
  by (induction xs arbitrary: s) (simp_all add: push_def)

lemma foldl_push_fetches [simp]: "fetches (trace (foldl (push d) s xs)) = fetches (trace s)"
  by (induction xs arbitrary: s) (simp_all add: push_def)

lemma successes_simps [simp]:
  "successes [] = []"
  "successes (Fetch u d True # tr) = u # successes tr"
  "successes (Fetch u d False # tr) = successes tr"
  "successes (LinkFetch u # tr) = successes tr"
  "successes (Push u d # tr) = successes tr"
  by (simp_all add: successes_def)

lemma attempts_simps [simp]:
  "attempts [] = []"
  "attempts (Fetch u d b # tr) = (u, d) # attempts tr"
  "attempts (LinkFetch u # tr) = attempts tr"
  "attempts (Push u d # tr) = attempts tr"
  by (simp_all add: attempts_def)

text \<open>The four ways one turn of the loop can go.\<close>

lemma loop_body_skip:
  assumes "to_visit s = (u, depth) # rest" and "u |\<in>| visited s \<or> depth > max_depth"
  shows "loop_body e start_url max_depth s = s\<lparr>to_visit := rest\<rparr>"
  using assms by (simp add: loop_body_def)

lemma loop_body_fail:
  assumes "to_visit s = (u, depth) # rest" and "u |\<notin>| visited s" and "depth \<le> max_depth"
    and "scrape_webpage e (trace s) u = None"
  shows "loop_body e start_url max_depth s =
           s\<lparr>to_visit := rest, trace := trace s @ [Fetch u depth False]\<rparr>"
  using assms by (simp add: loop_body_def)

lemma loop_body_leaf:
  assumes "to_visit s = (u, depth) # rest" and "u |\<notin>| visited s" and "depth = max_depth"
    and "scrape_webpage e (trace s) u = Some data"
  shows "loop_body e start_url max_depth s =
           s\<lparr>to_visit := rest, results := results s @ [data],
              visited := finsert u (visited s), trace := trace s @ [Fetch u depth True]\<rparr>"
  using assms by (simp add: loop_body_def)

lemma loop_body_expand:
  assumes "to_visit s = (u, depth) # rest" and "u |\<notin>| visited s" and "depth < max_depth"
    and "scrape_webpage e (trace s) u = Some data"
  shows "loop_body e start_url max_depth s =
           foldl (push depth)
             (s\<lparr>to_visit := rest, results := results s @ [data],
                visited := finsert u (visited s),
                trace := trace s @ [Fetch u depth True, LinkFetch u]\<rparr>)
             (sort_key (hash_order e (trace s @ [Fetch u depth True, LinkFetch u]))
                (get_links e (trace s @ [Fetch u depth True]) u start_url))"
  using assms by (simp add: loop_body_def)

lemma loop_body_cases:
  assumes "to_visit s \<noteq> []"
  obtains
    (skip) u depth rest where "to_visit s = (u, depth) # rest"
      "u |\<in>| visited s \<or> depth > max_depth"
      "loop_body e start_url max_depth s = s\<lparr>to_visit := rest\<rparr>"
  | (fail) u depth rest where "to_visit s = (u, depth) # rest"
      "u |\<notin>| visited s" "depth \<le> max_depth" "scrape_webpage e (trace s) u = None"
      "loop_body e start_url max_depth s =
         s\<lparr>to_visit := rest, trace := trace s @ [Fetch u depth False]\<rparr>"
  | (leaf) u depth rest data where "to_visit s = (u, depth) # rest"
      "u |\<notin>| visited s" "depth = max_depth" "scrape_webpage e (trace s) u = Some data"
      "loop_body e start_url max_depth s =
         s\<lparr>to_visit := rest, results := results s @ [data],
            visited := finsert u (visited s), trace := trace s @ [Fetch u depth True]\<rparr>"
  | (expand) u depth rest data where "to_visit s = (u, depth) # rest"
      "u |\<notin>| visited s" "depth < max_depth" "scrape_webpage e (trace s) u = Some data"
      "loop_body e start_url max_depth s =
         foldl (push depth)
           (s\<lparr>to_visit := rest, results := results s @ [data],
              visited := finsert u (visited s),
              trace := trace s @ [Fetch u depth True, LinkFetch u]\<rparr>)
           (sort_key (hash_order e (trace s @ [Fetch u depth True, LinkFetch u]))
              (get_links e (trace s @ [Fetch u depth True]) u start_url))"
proof -
  from assms obtain u depth rest where q: "to_visit s = (u, depth) # rest"
    by (cases "to_visit s") auto
  show ?thesis
  proof (cases "u |\<in>| visited s \<or> depth > max_depth")
    case True
    then show ?thesis using q loop_body_skip skip by blast
  next
    case False
    then have nv: "u |\<notin>| visited s" and le: "depth \<le> max_depth" by auto
    show ?thesis
    proof (cases "scrape_webpage e (trace s) u")
      case None
      then show ?thesis using q nv le loop_body_fail fail by blast
    next
      case (Some data)
      show ?thesis
      proof (cases "depth < max_depth")
        case True
        then show ?thesis using q nv Some loop_body_expand expand by blast
      next
        case False
        then have "depth = max_depth" using le by simp
        then show ?thesis using q nv Some loop_body_leaf leaf by blast
      qed
    qed
  qed
qed

lemma inv_visited_initial: "inv_visited (initial start_url)"
  by (simp add: inv_visited_def initial_def)

lemma successes_foldl_push [simp]:
  "successes (trace (foldl (push d) s xs)) = successes (trace s)"
  by (simp add: successes_def)

lemma inv_visited_body:
  assumes "inv_visited s" and "to_visit s \<noteq> []"
  shows "inv_visited (loop_body e start_url max_depth s)"
  using assms(2)
proof (cases rule: loop_body_cases [where e = e and start_url = start_url and max_depth = max_depth])
  case (skip u depth rest)
  then show ?thesis using assms(1) by (simp add: inv_visited_def)
next
  case (fail u depth rest)
  then show ?thesis using assms(1) by (simp add: inv_visited_def)
next
  case (leaf u depth rest data)
  have "url data = u" using leaf(4) by (rule scrape_webpage_url)
  moreover have "u \<notin> set (successes (trace s))"
    using leaf(2) assms(1) by (auto simp: inv_visited_def)
  ultimately show ?thesis using assms(1) leaf(5) by (simp add: inv_visited_def)
next
  case (expand u depth rest data)
  have "url data = u" using expand(4) by (rule scrape_webpage_url)
  moreover have "u \<notin> set (successes (trace s))"
    using expand(2) assms(1) by (auto simp: inv_visited_def)
  ultimately show ?thesis using assms(1) expand(5)
    by (simp add: inv_visited_def)
qed

lemma inv_visited_crawl: "inv_visited (crawl e start_url max_pages max_depth)"
  unfolding crawl_def
  by (rule scrape_loop_invariant) (simp_all add: inv_visited_initial inv_visited_body loop_cond_def)

lemma inv_visited_fcard:
  assumes "inv_visited s"
  shows "fcard (visited s) = length (results s)"
proof -
  have "fcard (visited s) = card (set (successes (trace s)))"
    using assms by (simp add: inv_visited_def fcard.rep_eq)
  also have "\<dots> = length (successes (trace s))"
    using assms by (simp add: inv_visited_def distinct_card)
  also have "\<dots> = length (results s)"
    using assms by (metis inv_visited_def length_map)
  finally show ?thesis .
qed

lemma each_fetch_Nil [simp]: "each_fetch Q []"
  by (simp add: each_fetch_def)

lemma snoc_eq_split:
  "xs @ [x] = ys @ y # zs \<longleftrightarrow>
     (zs = [] \<and> xs = ys \<and> x = y) \<or> (\<exists>zs'. zs = zs' @ [x] \<and> xs = ys @ y # zs')"
  by (cases zs rule: rev_cases) auto

lemma each_fetch_snoc:
  "each_fetch Q (tr @ [ev]) \<longleftrightarrow>
     each_fetch Q tr \<and> (\<forall>u d b. ev = Fetch u d b \<longrightarrow> Q tr u d)"
  unfolding each_fetch_def snoc_eq_split by blast

lemma each_fetch_snoc2:
  "each_fetch Q (tr @ [ev, ev']) \<longleftrightarrow>
     each_fetch Q tr \<and> (\<forall>u d b. ev = Fetch u d b \<longrightarrow> Q tr u d)
       \<and> (\<forall>u d b. ev' = Fetch u d b \<longrightarrow> Q (tr @ [ev]) u d)"
  using each_fetch_snoc [of Q "tr @ [ev]" ev'] each_fetch_snoc [of Q tr ev] by simp

lemma each_fetch_push [simp]: "each_fetch Q (trace (push d s x)) = each_fetch Q (trace s)"
  by (simp add: push_def each_fetch_snoc)

lemma each_fetch_foldl_push [simp]:
  "each_fetch Q (trace (foldl (push d) s xs)) = each_fetch Q (trace s)"
  by (induction xs arbitrary: s) simp_all

lemma inv_fetch_initial: "inv_fetch (initial start_url)"
  using each_fetch_snoc [of _ "[]" "Push start_url 0"]
  by (simp add: inv_fetch_def inv_visited_initial) (simp add: initial_def)

lemma inv_fetch_body:
  assumes "inv_fetch s" and "to_visit s \<noteq> []"
  shows "inv_fetch (loop_body e start_url max_depth s)"
proof -
  have iv: "inv_visited s" using assms(1) by (simp add: inv_fetch_def)
  have iv': "inv_visited (loop_body e start_url max_depth s)"
    using iv assms(2) by (rule inv_visited_body)
  have mem: "u |\<notin>| visited s \<Longrightarrow> u \<notin> set (successes (trace s))" for u
    using iv by (auto simp: inv_visited_def)
  show ?thesis
    using assms(2)
  proof (cases rule: loop_body_cases [where e = e and start_url = start_url and max_depth = max_depth])
    case (skip u depth rest)
    then show ?thesis using assms(1) iv' by (simp add: inv_fetch_def)
  next
    case (fail u depth rest)
    then show ?thesis using assms(1) iv' mem
      by (simp add: inv_fetch_def each_fetch_snoc)
  next
    case (leaf u depth rest data)
    then show ?thesis using assms(1) iv' mem
      by (simp add: inv_fetch_def each_fetch_snoc)
  next
    case (expand u depth rest data)
    then show ?thesis using assms(1) iv' mem
      by (simp add: inv_fetch_def each_fetch_snoc2)
  qed
qed

lemma inv_fetch_crawl: "inv_fetch (crawl e start_url max_pages max_depth)"
  unfolding crawl_def
  by (rule scrape_loop_invariant) (simp_all add: inv_fetch_initial inv_fetch_body loop_cond_def)

lemma inv_budget_initial: "0 \<le> max_pages \<Longrightarrow> inv_budget max_pages (initial start_url)"
  using each_fetch_snoc [of _ "[]" "Push start_url 0"]
  by (simp add: inv_budget_def inv_visited_initial) (simp add: initial_def)

lemma inv_budget_body:
  assumes "inv_budget max_pages s" and "loop_cond max_pages s"
  shows "inv_budget max_pages (loop_body e start_url max_depth s)"
proof -
  have iv: "inv_visited s" using assms(1) by (simp add: inv_budget_def)
  have ne: "to_visit s \<noteq> []" using assms(2) by (simp add: loop_cond_def)
  have iv': "inv_visited (loop_body e start_url max_depth s)"
    using iv ne by (rule inv_visited_body)
  have lt: "int (length (results s)) < max_pages"
    using assms(2) inv_visited_fcard [OF iv] by (simp add: loop_cond_def)
  have ls: "length (successes (trace s)) = length (results s)"
    using iv by (metis inv_visited_def length_map)
  show ?thesis
    using ne
  proof (cases rule: loop_body_cases [where e = e and start_url = start_url and max_depth = max_depth])
    case (skip u depth rest)
    then show ?thesis using assms(1) iv' by (simp add: inv_budget_def)
  next
    case (fail u depth rest)
    then show ?thesis using assms(1) iv' lt ls
      by (simp add: inv_budget_def each_fetch_snoc)
  next
    case (leaf u depth rest data)
    then show ?thesis using assms(1) iv' lt ls
      by (simp add: inv_budget_def each_fetch_snoc)
  next
    case (expand u depth rest data)
    then show ?thesis using assms(1) iv' lt ls
      by (simp add: inv_budget_def each_fetch_snoc2)
  qed
qed

lemma inv_budget_crawl:
  "0 \<le> max_pages \<Longrightarrow> inv_budget max_pages (crawl e start_url max_pages max_depth)"
  unfolding crawl_def
  by (rule scrape_loop_invariant) (simp_all add: inv_budget_initial inv_budget_body)

lemma new_entries_simps [simp]:
  "new_entries d s [] = []"
  "new_entries d s (x # xs) =
     (if x |\<notin>| visited s then (x, d + 1) # new_entries d s xs else new_entries d s xs)"
  by (simp_all add: new_entries_def)

lemma new_entries_push [simp]: "new_entries d (push d' s y) xs = new_entries d s xs"
  by (simp add: new_entries_def push_def)

lemma foldl_push_to_visit:
  "to_visit (foldl (push d) s xs) = to_visit s @ new_entries d s xs"
  by (induction xs arbitrary: s) (simp_all, simp_all add: push_def)

lemma foldl_push_pushes:
  "pushes (trace (foldl (push d) s xs)) = pushes (trace s) @ new_entries d s xs"
  by (induction xs arbitrary: s) (simp_all, simp_all add: push_def)

lemma foldl_push_attempts [simp]:
  "attempts (trace (foldl (push d) s xs)) = attempts (trace s)"
  by (simp add: attempts_def)

lemma set_new_entries: "set (new_entries d s xs) \<subseteq> (\<lambda>x. (x, d + 1)) ` set xs"
  by (auto simp: new_entries_def)

lemma inv_depth_initial: "0 \<le> max_depth \<Longrightarrow> inv_depth e start_url max_depth (initial start_url)"
  by (simp add: inv_depth_def initial_def link_path.seed)

lemma inv_depth_body:
  assumes "inv_depth e start_url max_depth s" and "to_visit s \<noteq> []"
  shows "inv_depth e start_url max_depth (loop_body e start_url max_depth s)"
  using assms(2)
proof (cases rule: loop_body_cases [where e = e and start_url = start_url and max_depth = max_depth])
  case (skip u depth rest)
  then show ?thesis using assms(1) by (auto simp: inv_depth_def)
next
  case (fail u depth rest)
  then show ?thesis using assms(1) by (auto simp: inv_depth_def)
next
  case (leaf u depth rest data)
  then show ?thesis using assms(1) by (auto simp: inv_depth_def)
next
  case (expand u depth rest data)
  let ?tr = "trace s @ [Fetch u depth True]"
  let ?links = "sort_key (hash_order e (?tr @ [LinkFetch u])) (get_links e ?tr u start_url)"
  have ud: "(u, depth) \<in> set (pushes (trace s))"
    using assms(1) expand(1) by (auto simp: inv_depth_def)
  then have lp: "link_path e start_url depth u"
    using assms(1) by (auto simp: inv_depth_def)
  have new: "d = depth + 1 \<and> d \<le> max_depth \<and> link_path e start_url d v"
    if "(v, d) \<in> set (new_entries depth t ?links)" for v d t
  proof -
    from that have "v \<in> set (get_links e ?tr u start_url)" and "d = depth + 1"
      using set_new_entries [of depth t ?links] by auto
    then show ?thesis using lp expand(3) link_path.link by auto
  qed
  show ?thesis
    using assms(1) new
    by (auto simp: expand(5) inv_depth_def foldl_push_to_visit foldl_push_pushes expand(1))
qed

lemma inv_depth_crawl:
  "0 \<le> max_depth \<Longrightarrow> inv_depth e start_url max_depth (crawl e start_url max_pages max_depth)"
  unfolding crawl_def
  by (rule scrape_loop_invariant) (simp_all add: inv_depth_initial inv_depth_body loop_cond_def)

lemma inv_order_initial: "inv_order (initial start_url)"
  by (simp add: inv_order_def initial_def)

lemma inv_order_pop:
  assumes "inv_order s" and "to_visit s = (u, depth) # rest"
    and "tr = trace s \<or> tr = trace s @ [Fetch u depth b]"
  shows "inv_order (s\<lparr>to_visit := rest, trace := tr\<rparr>)"
proof -
  from assms(1) obtain popped where
    p: "pushes (trace s) = popped @ to_visit s" "subseq (attempts (trace s)) popped"
    by (auto simp: inv_order_def)
  have ps: "pushes tr = pushes (trace s)" using assms(3) by auto
  have "pushes tr = (popped @ [(u, depth)]) @ rest"
    using p(1) assms(2) ps by simp
  moreover have "subseq (attempts tr) (popped @ [(u, depth)])"
    using assms(3) p(2) by (auto intro: list_emb_append_mono)
  ultimately have "\<exists>popped. pushes tr = popped @ rest \<and> subseq (attempts tr) popped"
    by blast
  then show ?thesis
    using assms(1,2) ps by (simp add: inv_order_def)
qed

lemma inv_order_push_all:
  assumes "inv_order s" and "to_visit s = (u, depth) # rest"
    and "to_visit t = rest @ new" and "pushes (trace t) = pushes (trace s) @ new"
    and "attempts (trace t) = attempts (trace s) @ [(u, depth)]"
    and "\<forall>y \<in> set new. snd y = depth + 1"
  shows "inv_order t"
proof -
  from assms(1) obtain popped where
    p: "pushes (trace s) = popped @ to_visit s" "subseq (attempts (trace s)) popped"
    by (auto simp: inv_order_def)
  have srt: "sorted (map snd (pushes (trace s)))"
    and near: "\<forall>x \<in> set (pushes (trace s)). \<forall>y \<in> set (to_visit s). snd x \<le> snd y + 1"
    using assms(1) by (auto simp: inv_order_def)
  have below: "\<forall>x \<in> set (pushes (trace s)). snd x \<le> depth + 1"
    using near assms(2) by auto
  have above: "\<forall>y \<in> set rest. depth \<le> snd y"
    using srt p(1) assms(2) by (auto simp: sorted_append)
  have "pushes (trace t) = (popped @ [(u, depth)]) @ to_visit t"
    using p(1) assms(2,3,4) by simp
  moreover have "subseq (attempts (trace t)) (popped @ [(u, depth)])"
    using p(2) assms(5) by (auto intro: list_emb_append_mono)
  ultimately have a: "\<exists>popped. pushes (trace t) = popped @ to_visit t
      \<and> subseq (attempts (trace t)) popped"
    by blast
  have "sorted (map snd new)"
    using assms(6) by (induction new) auto
  then have b: "sorted (map snd (pushes (trace t)))"
    using srt below assms(4,6) by (auto simp: sorted_append)
  have c: "\<forall>x \<in> set (pushes (trace t)). \<forall>y \<in> set (to_visit t). snd x \<le> snd y + 1"
  proof (intro ballI)
    fix x y
    assume x: "x \<in> set (pushes (trace t))" and y: "y \<in> set (to_visit t)"
    from x have x': "snd x \<le> depth + 1"
      using below assms(4,6) by auto
    from y have "depth \<le> snd y"
      using above assms(3,6) by auto
    with x' show "snd x \<le> snd y + 1" by simp
  qed
  show ?thesis using a b c by (simp add: inv_order_def)
qed

lemma inv_order_body:
  assumes "inv_order s" and "to_visit s \<noteq> []"
  shows "inv_order (loop_body e start_url max_depth s)"
  using assms(2)
proof (cases rule: loop_body_cases [where e = e and start_url = start_url and max_depth = max_depth])
  case (skip u depth rest)
  then show ?thesis using inv_order_pop [OF assms(1) skip(1), of "trace s"] by simp
next
  case (fail u depth rest)
  then show ?thesis
    using inv_order_pop [OF assms(1) fail(1), of "trace s @ [Fetch u depth False]" False] by simp
next
  case (leaf u depth rest data)
  have "inv_order (s\<lparr>to_visit := rest, trace := trace s @ [Fetch u depth True]\<rparr>)"
    using inv_order_pop [OF assms(1) leaf(1), of "trace s @ [Fetch u depth True]" True] by simp
  then show ?thesis
    by (simp add: leaf(5) inv_order_def)
next
  case (expand u depth rest data)
  have new: "\<forall>y \<in> set (new_entries depth t xs). snd y = depth + 1" for t xs
    by (auto simp: new_entries_def)
  show ?thesis
    unfolding expand(5)
  proof (rule inv_order_push_all [OF assms(1) expand(1)])
    show "\<forall>y \<in> set (new_entries depth
              (s\<lparr>to_visit := rest, results := results s @ [data],
                   visited := finsert u (visited s),
                   trace := trace s @ [Fetch u depth True, LinkFetch u]\<rparr>)
              (sort_key
                (hash_order e (trace s @ [Fetch u depth True, LinkFetch u]))
                (get_links e (trace s @ [Fetch u depth True]) u start_url))).
        snd y = depth + 1"
      by (rule new)
  qed (simp_all add: foldl_push_to_visit foldl_push_pushes)
qed

lemma inv_order_crawl: "inv_order (crawl e start_url max_pages max_depth)"
  unfolding crawl_def
  by (rule scrape_loop_invariant) (simp_all add: inv_order_initial inv_order_body loop_cond_def)

lemma subseq_sorted:
  fixes ys :: "'a :: linorder list"
  assumes "subseq xs ys" and "sorted ys"
  shows "sorted xs"
  using assms by (auto simp: subseq_conv_nths sorted_nths)

lemma successes_subseq_attempts: "subseq (successes tr) (map fst (attempts tr))"
  by (induction tr rule: fetches.induct) (auto simp: successes_def attempts_def)

lemma successes_in_attempts: "set (successes tr) \<subseteq> fst ` set (attempts tr)"
  by (induction tr rule: fetches.induct) (auto simp: successes_def attempts_def)

lemma successes_iff: "u \<in> set (successes tr) \<longleftrightarrow> (\<exists>d. (u, d, True) \<in> set (fetches tr))"
  by (induction tr rule: fetches.induct) (auto simp: successes_def)





lemma first_occurrences_snoc:
  "first_occurrences (xs @ [x]) =
     (if x \<in> set xs then first_occurrences xs else first_occurrences xs @ [x])"
  by (simp add: first_occurrences_def)

lemma first_occurrences_Nil [simp]: "first_occurrences [] = []"
  by (simp add: first_occurrences_def)

lemma set_first_occurrences [simp]: "set (first_occurrences xs) = set xs"
  by (simp add: first_occurrences_def)

lemma subseq_first_occurrences_snoc:
  "subseq xs (first_occurrences ys) \<Longrightarrow> subseq xs (first_occurrences (ys @ [y]))"
  by (simp add: first_occurrences_snoc list_emb_prefix)

lemma first_occurrences_prefix:
  "subseq (first_occurrences xs) (first_occurrences (xs @ ys))"
proof (induction ys rule: rev_induct)
  case Nil
  then show ?case by simp
next
  case (snoc y ys)
  then show ?case
    using subseq_first_occurrences_snoc [of "first_occurrences xs" "xs @ ys" y] by simp
qed

lemma subseq_first_occurrences_both:
  assumes "subseq (first_occurrences xs) (first_occurrences ys)"
    and "u \<in> set ys \<longrightarrow> u \<in> set xs"
  shows "subseq (first_occurrences (xs @ [u])) (first_occurrences (ys @ [u]))"
proof (cases "u \<in> set xs")
  case True
  then show ?thesis
    using assms(1) subseq_first_occurrences_snoc [of "first_occurrences xs" ys u]
    by (simp add: first_occurrences_snoc)
next
  case False
  then have "u \<notin> set ys" using assms(2) by blast
  then show ?thesis
    using False assms(1) by (simp add: first_occurrences_snoc list_emb_append_mono)
qed

lemma inv_first_initial: "inv_first max_depth (initial start_url)"
proof -
  have "pushes (trace (initial start_url)) = [] @ to_visit (initial start_url)"
    by (simp add: initial_def)
  moreover have "subseq (first_occurrences (map fst (attempts (trace (initial start_url)))))
                (first_occurrences (map fst ([] :: (str \<times> int) list)))"
    by (simp add: initial_def)
  ultimately show ?thesis
    unfolding inv_first_def
    using inv_visited_initial inv_order_initial by fastforce
qed

lemma inv_first_step:
  assumes "inv_first max_depth s" and "to_visit s = (u, d) # rest"
    and "inv_visited t" and "inv_order t"
    and "to_visit t = rest @ new" and "pushes (trace t) = pushes (trace s) @ new"
    and "attempts (trace t) = attempts (trace s) @ atts"
    and "(atts = [(u, d)] \<and> d \<le> max_depth) \<or>
         (atts = [] \<and> (u |\<in>| visited s \<or> max_depth < d))"
  shows "inv_first max_depth t"
proof -
  from assms(1) obtain popped where
    p: "pushes (trace s) = popped @ to_visit s"
    and sub: "subseq (first_occurrences (map fst (attempts (trace s))))
                (first_occurrences (map fst popped))"
    and old: "\<forall>(x, dx) \<in> set popped. x \<in> set (map fst (attempts (trace s))) \<or> max_depth < dx"
    and iv: "inv_visited s" and io: "inv_order s"
    by (auto simp: inv_first_def)
  have "sorted (map snd (popped @ (u, d) # rest))"
    using io p assms(2) by (simp add: inv_order_def)
  then have below: "\<forall>(x, dx) \<in> set popped. dx \<le> d"
    by (auto simp: sorted_append)
  have vis: "u |\<in>| visited s \<Longrightarrow> u \<in> set (map fst (attempts (trace s)))"
    using iv successes_in_attempts [of "trace s"] by (auto simp: inv_visited_def)
  let ?popped = "popped @ [(u, d)]"
  have a: "pushes (trace t) = ?popped @ to_visit t"
    using p assms(2,5,6) by simp
  have b: "subseq (first_occurrences (map fst (attempts (trace t))))
                (first_occurrences (map fst ?popped))"
  proof (cases "atts = []")
    case True
    then show ?thesis
      using sub assms(7) subseq_first_occurrences_snoc [of _ "map fst popped" u] by simp
  next
    case False
    then have at: "atts = [(u, d)]" and le: "d \<le> max_depth"
      using assms(8) by auto
    have "u \<in> set (map fst popped) \<longrightarrow> u \<in> set (map fst (attempts (trace s)))"
    proof
      assume "u \<in> set (map fst popped)"
      then obtain d' where d': "(u, d') \<in> set popped" by auto
      then have "d' \<le> d" using below by auto
      then have "\<not> max_depth < d'" using le by simp
      then show "u \<in> set (map fst (attempts (trace s)))"
        using old d' by auto
    qed
    then show ?thesis
      using sub assms(7) at
        subseq_first_occurrences_both [of "map fst (attempts (trace s))" "map fst popped" u]
      by simp
  qed
  have c: "\<forall>(x, dx) \<in> set ?popped. x \<in> set (map fst (attempts (trace t))) \<or> max_depth < dx"
  proof -
    have "u \<in> set (map fst (attempts (trace t))) \<or> max_depth < d"
      using assms(7,8) vis by auto
    moreover have "\<forall>(x, dx) \<in> set popped.
        x \<in> set (map fst (attempts (trace t))) \<or> max_depth < dx"
      using old assms(7) by auto
    ultimately show ?thesis by simp
  qed
  show ?thesis
    unfolding inv_first_def using assms(3,4) a b c by blast
qed

lemma inv_first_body:
  assumes "inv_first max_depth s" and "to_visit s \<noteq> []"
  shows "inv_first max_depth (loop_body e start_url max_depth s)"
proof -
  have iv: "inv_visited (loop_body e start_url max_depth s)"
    using assms by (simp add: inv_first_def inv_visited_body)
  have io: "inv_order (loop_body e start_url max_depth s)"
    using assms by (simp add: inv_first_def inv_order_body)
  show ?thesis
    using assms(2)
  proof (cases rule: loop_body_cases [where e = e and start_url = start_url and max_depth = max_depth])
    case (skip u depth rest)
    show ?thesis
      by (rule inv_first_step [OF assms(1) skip(1) iv io, where new = "[]" and atts = "[]"])
         (use skip in simp_all)
  next
    case (fail u depth rest)
    show ?thesis
      by (rule inv_first_step [OF assms(1) fail(1) iv io, where new = "[]" and atts = "[(u, depth)]"])
         (use fail in simp_all)
  next
    case (leaf u depth rest data)
    show ?thesis
      by (rule inv_first_step [OF assms(1) leaf(1) iv io, where new = "[]" and atts = "[(u, depth)]"])
         (use leaf in simp_all)
  next
    case (expand u depth rest data)
    show ?thesis
      by (rule inv_first_step [OF assms(1) expand(1) iv io, where atts = "[(u, depth)]"])
         (use expand in \<open>simp_all add: foldl_push_to_visit foldl_push_pushes\<close>)
  qed
qed

lemma inv_first_crawl: "inv_first max_depth (crawl e start_url max_pages max_depth)"
  unfolding crawl_def
  by (rule scrape_loop_invariant) (simp_all add: inv_first_initial inv_first_body loop_cond_def)

lemma static_scrape_ok:
  "static e \<Longrightarrow> (scrape_webpage e tr u \<noteq> None) = scrape_ok e u"
proof -
  assume "static e"
  then have "http_get e tr u = http_get e [] u"
    unfolding static_def by blast
  then show ?thesis
    by (simp add: scrape_ok_def scrape_webpage_def Let_def split: option.splits)
qed

lemma inv_static_initial: "inv_static e (initial start_url)"
  by (simp add: inv_static_def inv_visited_initial) (simp add: initial_def)

lemma inv_static_body:
  assumes "static e" and "inv_static e s" and "to_visit s \<noteq> []"
  shows "inv_static e (loop_body e start_url max_depth s)"
proof -
  have iv: "inv_visited s" using assms(2) by (simp add: inv_static_def)
  have iv': "inv_visited (loop_body e start_url max_depth s)"
    using iv assms(3) by (rule inv_visited_body)
  have eq: "successes (trace s) =
      filter (scrape_ok e) (first_occurrences (map fst (attempts (trace s))))"
    using assms(2) by (simp add: inv_static_def)
  have fresh: "u \<notin> set (map fst (attempts (trace s)))"
    if "u |\<notin>| visited s" and "scrape_ok e u" for u
  proof
    assume "u \<in> set (map fst (attempts (trace s)))"
    then have "u \<in> set (filter (scrape_ok e) (first_occurrences (map fst (attempts (trace s)))))"
      using that(2) by simp
    then have "u \<in> set (successes (trace s))" using eq by simp
    then show False using that(1) iv by (simp add: inv_visited_def)
  qed
  show ?thesis
    using assms(3)
  proof (cases rule: loop_body_cases [where e = e and start_url = start_url and max_depth = max_depth])
    case (skip u depth rest)
    then show ?thesis using assms(2) iv' by (simp add: inv_static_def)
  next
    case (fail u depth rest)
    have "\<not> scrape_ok e u"
      using static_scrape_ok [OF assms(1), of "trace s" u] fail(4) by simp
    then show ?thesis using eq iv' fail(5)
      by (simp add: inv_static_def first_occurrences_snoc)
  next
    case (leaf u depth rest data)
    have ok: "scrape_ok e u"
      using static_scrape_ok [OF assms(1), of "trace s" u] leaf(4) by simp
    then show ?thesis using eq iv' leaf(5) fresh [OF leaf(2) ok]
      by (simp add: inv_static_def first_occurrences_snoc)
  next
    case (expand u depth rest data)
    have ok: "scrape_ok e u"
      using static_scrape_ok [OF assms(1), of "trace s" u] expand(4) by simp
    then show ?thesis using eq iv' expand(5) fresh [OF expand(2) ok]
      by (simp add: inv_static_def first_occurrences_snoc)
  qed
qed

lemma inv_static_crawl:
  "static e \<Longrightarrow> inv_static e (crawl e start_url max_pages max_depth)"
  unfolding crawl_def
  by (rule scrape_loop_invariant) (simp_all add: inv_static_initial inv_static_body loop_cond_def)

text \<open>The requests of \<open>get_links\<close>.\<close>

lemma each_link_fetch_snoc:
  "each_link_fetch Q (tr @ [ev]) \<longleftrightarrow>
     each_link_fetch Q tr \<and> (\<forall>u. ev = LinkFetch u \<longrightarrow> Q tr u)"
  unfolding each_link_fetch_def snoc_eq_split by blast

lemma each_link_fetch_snoc2:
  "each_link_fetch Q (tr @ [ev, ev']) \<longleftrightarrow>
     each_link_fetch Q tr \<and> (\<forall>u. ev = LinkFetch u \<longrightarrow> Q tr u)
       \<and> (\<forall>u. ev' = LinkFetch u \<longrightarrow> Q (tr @ [ev]) u)"
  using each_link_fetch_snoc [of Q "tr @ [ev]" ev'] each_link_fetch_snoc [of Q tr ev] by simp

lemma each_link_fetch_push [simp]:
  "each_link_fetch Q (trace (push d s x)) = each_link_fetch Q (trace s)"
  by (simp add: push_def each_link_fetch_snoc)

lemma each_link_fetch_foldl_push [simp]:
  "each_link_fetch Q (trace (foldl (push d) s xs)) = each_link_fetch Q (trace s)"
  by (induction xs arbitrary: s) simp_all

lemma followed_snoc:
  assumes "followed m tr" and "\<forall>u d. ev = Fetch u d True \<longrightarrow> \<not> d < m"
  shows "followed m (tr @ [ev])"
  unfolding followed_def
proof (intro allI impI, elim conjE)
  fix pre u d post
  assume eq: "tr @ [ev] = pre @ Fetch u d True # post" and d: "d < m"
  from eq consider "post = []" "tr = pre" "ev = Fetch u d True"
    | post' where "post = post' @ [ev]" "tr = pre @ Fetch u d True # post'"
    unfolding snoc_eq_split by blast
  then show "\<exists>post'. post = LinkFetch u # post'"
  proof cases
    case 1
    then show ?thesis using assms(2) d by blast
  next
    case 2
    then obtain p where "post' = LinkFetch u # p"
      using assms(1) d unfolding followed_def by blast
    then show ?thesis using 2(1) by simp
  qed
qed

lemma followed_expand:
  assumes "followed m tr"
  shows "followed m (tr @ [Fetch u d True, LinkFetch u])"
  unfolding followed_def
proof (intro allI impI, elim conjE)
  fix pre u' d' post
  assume eq: "tr @ [Fetch u d True, LinkFetch u] = pre @ Fetch u' d' True # post" and d: "d' < m"
  have "(tr @ [Fetch u d True]) @ [LinkFetch u] = pre @ Fetch u' d' True # post"
    using eq by simp
  then obtain post' where p: "post = post' @ [LinkFetch u]"
    "tr @ [Fetch u d True] = pre @ Fetch u' d' True # post'"
    unfolding snoc_eq_split by blast
  from p(2) consider "post' = []" "tr = pre" "Fetch u d True = Fetch u' d' True"
    | post'' where "post' = post'' @ [Fetch u d True]" "tr = pre @ Fetch u' d' True # post''"
    unfolding snoc_eq_split by blast
  then show "\<exists>post'. post = LinkFetch u' # post'"
  proof cases
    case 1
    then show ?thesis using p(1) by simp
  next
    case 2
    then obtain q where "post'' = LinkFetch u' # q"
      using assms d unfolding followed_def by blast
    then show ?thesis using 2(1) p(1) by simp
  qed
qed

lemma followed_push [simp]: "followed m (trace s) \<Longrightarrow> followed m (trace (push d s x))"
  by (simp add: push_def followed_snoc)

lemma followed_foldl_push: "followed m (trace s) \<Longrightarrow> followed m (trace (foldl (push d) s xs))"
  by (induction xs arbitrary: s) simp_all

lemma each_link_fetch_Nil [simp]: "each_link_fetch Q []"
  by (simp add: each_link_fetch_def)

lemma followed_Nil [simp]: "followed m []"
  by (simp add: followed_def)

lemma inv_link_initial: "inv_link max_depth (initial start_url)"
proof -
  have "each_link_fetch Q ([] @ [Push start_url 0])" for Q
    unfolding each_link_fetch_snoc by simp
  moreover have "followed max_depth ([] @ [Push start_url 0])"
    by (rule followed_snoc) simp_all
  ultimately show ?thesis
    by (simp add: inv_link_def initial_def)
qed

lemma inv_link_body:
  assumes "inv_link max_depth s" and "to_visit s \<noteq> []"
  shows "inv_link max_depth (loop_body e start_url max_depth s)"
  using assms(2)
proof (cases rule: loop_body_cases [where e = e and start_url = start_url and max_depth = max_depth])
  case (skip u depth rest)
  then show ?thesis using assms(1) by (simp add: inv_link_def)
next
  case (fail u depth rest)
  then show ?thesis using assms(1)
    by (simp add: inv_link_def each_link_fetch_snoc followed_snoc)
next
  case (leaf u depth rest data)
  then show ?thesis using assms(1)
    by (simp add: inv_link_def each_link_fetch_snoc followed_snoc)
next
  case (expand u depth rest data)
  then show ?thesis using assms(1)
    by (simp add: inv_link_def each_link_fetch_snoc2 followed_expand followed_foldl_push)
qed

lemma inv_link_crawl: "inv_link max_depth (crawl e start_url max_pages max_depth)"
  unfolding crawl_def
  by (rule scrape_loop_invariant) (simp_all add: inv_link_initial inv_link_body loop_cond_def)


lemma records_distinct: "distinct (map url (scrape_website e start_url max_pages max_depth))"
  using inv_visited_crawl [of e start_url max_pages max_depth]
  by (simp add: inv_visited_def scrape_website_def)

section \<open>Lemmas about links\<close>

lemma set_add_set [simp]: "set (set_add x xs) = insert x (set xs)"
  by (auto simp: set_add_def)

lemma set_add_distinct [simp]: "distinct (set_add x xs) = distinct xs"
  by (auto simp: set_add_def)

lemma add_link_resolves:
  "resolves e base_url href \<Longrightarrow>
     \<exists>links'. add_link e base_url links href = Some links' \<and>
       set links' = set links \<union> {v. link_of e base_url href v} \<and>
       (distinct links \<longrightarrow> distinct links')"
  by (auto simp: resolves_def add_link_def link_of_def split: option.splits)

lemma add_link_fails: "\<not> resolves e base_url href \<Longrightarrow> add_link e base_url links href = None"
  by (auto simp: resolves_def add_link_def split: option.splits)

lemma add_links_resolves:
  "\<forall>href \<in> set hrefs. resolves e base_url href \<Longrightarrow>
     \<exists>links'. add_links e base_url links hrefs = Some links' \<and>
       set links' = set links \<union> {v. \<exists>href \<in> set hrefs. link_of e base_url href v} \<and>
       (distinct links \<longrightarrow> distinct links')"
proof (induction hrefs arbitrary: links)
  case Nil
  then show ?case by simp
next
  case (Cons h hrefs)
  from Cons.prems have "resolves e base_url h" by simp
  then obtain l1 where l1: "add_link e base_url links h = Some l1"
    "set l1 = set links \<union> {v. link_of e base_url h v}" "distinct links \<longrightarrow> distinct l1"
    using add_link_resolves by blast
  from Cons.prems have "\<forall>href \<in> set hrefs. resolves e base_url href" by simp
  then obtain l2 where l2: "add_links e base_url l1 hrefs = Some l2"
    "set l2 = set l1 \<union> {v. \<exists>href \<in> set hrefs. link_of e base_url href v}"
    "distinct l1 \<longrightarrow> distinct l2"
    using Cons.IH by blast
  have "add_links e base_url links (h # hrefs) = Some l2"
    using l1(1) l2(1) by simp
  moreover have "set l2 = set links \<union> {v. \<exists>href \<in> set (h # hrefs). link_of e base_url href v}"
    using l1(2) l2(2) by auto
  ultimately show ?case
    using l1(3) l2(3) by blast
qed

lemma add_links_fails:
  "\<not> (\<forall>href \<in> set hrefs. resolves e base_url href) \<Longrightarrow>
     add_links e base_url links hrefs = None"
proof (induction hrefs arbitrary: links)
  case Nil
  then show ?case by simp
next
  case (Cons h hrefs)
  show ?case
  proof (cases "resolves e base_url h")
    case True
    then obtain l1 where l1: "add_link e base_url links h = Some l1"
      using add_link_resolves by blast
    from True Cons.prems have "\<not> (\<forall>href \<in> set hrefs. resolves e base_url href)" by simp
    then show ?thesis using Cons.IH l1 by simp
  next
    case False
    then show ?thesis by (simp add: add_link_fails)
  qed
qed

lemma split_hash_0_no_hash: "0x23 \<notin> set (split_hash_0 s)"
  unfolding split_hash_0_def by (metis (mono_tags, lifting) set_takeWhileD)

lemma split_hash_0_fragment:
  "0x23 \<notin> set x \<Longrightarrow> split_hash_0 (x @ 0x23 # f) = x"
  unfolding split_hash_0_def by (induction x) auto

lemma get_links_set:
  "set (get_links e tr u base_url) =
     (case http_get e tr u of
        None \<Rightarrow> {}
      | Some response \<Rightarrow>
          (case html_parser e (resp_content response) of
             None \<Rightarrow> {}
           | Some document \<Rightarrow>
               (if \<forall>href \<in> set (find_all_href (py ''a'') document). resolves e base_url href
                then {v. \<exists>href \<in> set (find_all_href (py ''a'') document).
                           link_of e base_url href v}
                else {})))"
proof (cases "http_get e tr u")
  case None
  then show ?thesis by (simp add: get_links_def)
next
  case (Some response)
  show ?thesis
  proof (cases "html_parser e (resp_content response)")
    case None
    then show ?thesis using Some by (simp add: get_links_def)
  next
    case (Some document)
    note doc = this
    let ?hrefs = "find_all_href (py ''a'') document"
    show ?thesis
    proof (cases "\<forall>href \<in> set ?hrefs. resolves e base_url href")
      case True
      then obtain links where "add_links e base_url [] ?hrefs = Some links"
        "set links = set [] \<union> {v. \<exists>href \<in> set ?hrefs. link_of e base_url href v}"
        using add_links_resolves by blast
      then show ?thesis using \<open>http_get e tr u = Some response\<close> doc True
        by (simp add: get_links_def)
    next
      case False
      then have "add_links e base_url [] ?hrefs = None"
        by (rule add_links_fails)
      then have "set (get_links e tr u base_url) = {}"
        using \<open>http_get e tr u = Some response\<close> doc by (simp add: get_links_def)
      then show ?thesis
        by (simp only: \<open>http_get e tr u = Some response\<close> doc option.case if_not_P [OF False])
    qed
  qed
qed

lemma get_links_distinct: "distinct (get_links e tr u base_url)"
proof (cases "http_get e tr u")
  case None
  then show ?thesis by (simp add: get_links_def)
next
  case (Some response)
  show ?thesis
  proof (cases "html_parser e (resp_content response)")
    case None
    then show ?thesis using Some by (simp add: get_links_def)
  next
    case (Some document)
    note doc = this
    let ?hrefs = "find_all_href (py ''a'') document"
    show ?thesis
    proof (cases "\<forall>href \<in> set ?hrefs. resolves e base_url href")
      case True
      then obtain links where "add_links e base_url [] ?hrefs = Some links" "distinct links"
        using add_links_resolves [of ?hrefs e base_url "[]"] by auto
      then show ?thesis using \<open>http_get e tr u = Some response\<close> doc
        by (simp add: get_links_def)
    next
      case False
      then have "add_links e base_url [] ?hrefs = None"
        by (rule add_links_fails)
      then show ?thesis using \<open>http_get e tr u = Some response\<close> doc
        by (simp add: get_links_def)
    qed
  qed
qed

lemma get_links_member:
  assumes "v \<in> set (get_links e tr u base_url)"
  shows "\<exists>href. link_of e base_url href v"
  using assms unfolding get_links_set by (auto split: option.splits if_splits)

lemma link_of_no_hash: "link_of e base_url href v \<Longrightarrow> 0x23 \<notin> set v"
  by (auto simp: link_of_def split_hash_0_no_hash split: option.splits)

lemma inv_origin_initial: "inv_origin e start_url (initial start_url)"
  by (simp add: inv_origin_def initial_def)

lemma inv_origin_body:
  assumes "inv_origin e start_url s" and "to_visit s \<noteq> []"
  shows "inv_origin e start_url (loop_body e start_url max_depth s)"
  using assms(2)
proof (cases rule: loop_body_cases [where e = e and start_url = start_url and max_depth = max_depth])
  case (skip u depth rest)
  then show ?thesis using assms(1) by (simp add: inv_origin_def)
next
  case (fail u depth rest)
  then show ?thesis using assms(1) by (simp add: inv_origin_def)
next
  case (leaf u depth rest data)
  then show ?thesis using assms(1) by (simp add: inv_origin_def)
next
  case (expand u depth rest data)
  let ?tr = "trace s @ [Fetch u depth True]"
  let ?links = "sort_key (hash_order e (?tr @ [LinkFetch u])) (get_links e ?tr u start_url)"
  from assms(1) obtain old where old: "pushes (trace s) = (start_url, 0) # old"
    "\<forall>(v, d) \<in> set old. \<exists>tr u. v \<in> set (get_links e tr u start_url)"
    by (auto simp: inv_origin_def)
  have new: "\<exists>tr u. v \<in> set (get_links e tr u start_url)"
    if "(v, d) \<in> set (new_entries depth t ?links)" for v d t
    using that set_new_entries [of depth t ?links] by auto
  have "pushes (trace (loop_body e start_url max_depth s)) =
          (start_url, 0) # (old @ new_entries depth
             (s\<lparr>to_visit := rest, results := results s @ [data],
                visited := finsert u (visited s),
                trace := trace s @ [Fetch u depth True, LinkFetch u]\<rparr>) ?links)"
    by (simp add: expand(5) foldl_push_pushes old(1))
  moreover have "\<forall>(v, d) \<in> set (old @ new_entries depth
             (s\<lparr>to_visit := rest, results := results s @ [data],
                visited := finsert u (visited s),
                trace := trace s @ [Fetch u depth True, LinkFetch u]\<rparr>) ?links).
       \<exists>tr u. v \<in> set (get_links e tr u start_url)"
    using old(2) new by auto
  ultimately show ?thesis
    unfolding inv_origin_def by blast
qed

lemma inv_origin_crawl: "inv_origin e start_url (crawl e start_url max_pages max_depth)"
  unfolding crawl_def
  by (rule scrape_loop_invariant) (simp_all add: inv_origin_initial inv_origin_body loop_cond_def)

text \<open>When the start URL has no fragment no record has one, and the records differ
  in their URLs without the fragment too.\<close>

lemma split_hash_0_id: "0x23 \<notin> set s \<Longrightarrow> split_hash_0 s = s"
  unfolding split_hash_0_def by (induction s) auto

lemma records_no_fragment:
  assumes "0x23 \<notin> set start_url" and "r \<in> set (scrape_website e start_url max_pages max_depth)"
  shows "0x23 \<notin> set (url r)"
proof -
  let ?s = "crawl e start_url max_pages max_depth"
  have "map url (results ?s) = successes (trace ?s)"
    using inv_visited_crawl [of e start_url max_pages max_depth] by (simp add: inv_visited_def)
  then have "url r \<in> set (successes (trace ?s))"
    using assms(2) by (metis imageI set_map scrape_website_def)
  then obtain d where at: "(url r, d) \<in> set (attempts (trace ?s))"
    using successes_in_attempts [of "trace ?s"] by auto
  from inv_order_crawl [of e start_url max_pages max_depth] obtain popped where
    "pushes (trace ?s) = popped @ to_visit ?s" "subseq (attempts (trace ?s)) popped"
    unfolding inv_order_def by blast
  then have "subseq (attempts (trace ?s)) (pushes (trace ?s))"
    by (simp add: list_emb_prefix)
  from list_emb_set [OF this at] have m: "(url r, d) \<in> set (pushes (trace ?s))"
    by blast
  from inv_origin_crawl [of e start_url max_pages max_depth] obtain rest where
    rest: "pushes (trace ?s) = (start_url, 0) # rest"
      "\<forall>(v, d) \<in> set rest. \<exists>tr u. v \<in> set (get_links e tr u start_url)"
    unfolding inv_origin_def by blast
  show ?thesis
  proof (cases "(url r, d) = (start_url, 0)")
    case True
    then show ?thesis using assms(1) by simp
  next
    case False
    then have "(url r, d) \<in> set rest" using m rest(1) by auto
    then obtain tr u where "url r \<in> set (get_links e tr u start_url)"
      using rest(2) by blast
    then show ?thesis
      using get_links_member link_of_no_hash by blast
  qed
qed

lemma records_distinct_stripped:
  assumes "0x23 \<notin> set start_url"
  shows "distinct (map (\<lambda>r. split_hash_0 (url r)) (scrape_website e start_url max_pages max_depth))"
proof -
  have eq: "map (\<lambda>r. split_hash_0 (url r)) (scrape_website e start_url max_pages max_depth) =
        map url (scrape_website e start_url max_pages max_depth)"
    by (rule map_cong) (simp_all add: records_no_fragment [OF assms] split_hash_0_id)
  show ?thesis
    unfolding eq by (rule records_distinct)
qed

section \<open>Lemmas about extraction\<close>

lemma splitlines_no_break:
  "s \<noteq> [] \<Longrightarrow> \<forall>c \<in> set s. \<not> is_linebreak c \<Longrightarrow> splitlines s = [s]"
proof (induction s rule: splitlines.induct)
  case 1
  then show ?case by simp
next
  case (2 c)
  then show ?case by simp
next
  case (3 c d cs)
  then have "c \<noteq> 0x0D"
    by (auto simp: is_linebreak_def)
  then show ?case using 3 by simp
qed

lemma splitlines_lines:
  "l \<in> set (splitlines s) \<Longrightarrow> c \<in> set l \<Longrightarrow> \<not> is_linebreak c"
proof (induction s arbitrary: l rule: splitlines.induct)
  case 1
  then show ?case by simp
next
  case (2 c')
  then show ?case by (auto split: if_splits)
next
  case (3 c' d cs)
  show ?case
  proof (cases "c' = 0x0D \<and> d = 0x0A")
    case True
    then show ?thesis using 3 by auto
  next
    case False
    note nf = False
    show ?thesis
    proof (cases "is_linebreak c'")
      case True
      then show ?thesis using 3 nf by auto
    next
      case False
      have ih: "\<And>l. l \<in> set (splitlines (d # cs)) \<Longrightarrow> c \<in> set l \<Longrightarrow> \<not> is_linebreak c"
        using "3.IH"(3) nf False by blast
      show ?thesis
      proof (cases "splitlines (d # cs)")
        case Nil
        then show ?thesis using "3.prems" nf False by auto
      next
        case (Cons x xs)
        then have "l = c' # x \<or> l \<in> set xs"
          using "3.prems"(1) nf False by auto
        then show ?thesis
          using "3.prems"(2) False ih [of x] ih [of l] Cons by auto
      qed
    qed
  qed
qed

lemma splitlines_break:
  "\<forall>c \<in> set l. \<not> is_linebreak c \<Longrightarrow> splitlines (l @ 0x0A # rest) = l # splitlines rest"
proof (induction l)
  case Nil
  show ?case by (cases rest) (simp_all add: is_linebreak_def)
next
  case (Cons c l)
  then have c: "\<not> is_linebreak c" and ih: "splitlines (l @ 0x0A # rest) = l # splitlines rest"
    by simp_all
  obtain d cs where dcs: "l @ 0x0A # rest = d # cs"
    by (cases "l @ 0x0A # rest") auto
  have "c \<noteq> 0x0D" using c by (auto simp: is_linebreak_def)
  then have "splitlines (c # d # cs) = (case splitlines (d # cs) of [] \<Rightarrow> [[c]] | l # ls \<Rightarrow> (c # l) # ls)"
    using c by simp
  then show ?case
    using ih dcs by simp
qed

lemma splitlines_join:
  "\<forall>l \<in> set ls. l \<noteq> [] \<and> (\<forall>c \<in> set l. \<not> is_linebreak c) \<Longrightarrow>
     splitlines (join [0x0A] ls) = ls"
proof (induction ls rule: induct_list012)
  case 1
  then show ?case by simp
next
  case (2 x)
  then show ?case by (simp add: splitlines_no_break)
next
  case (3 x y ys)
  then show ?case by (simp add: splitlines_break)
qed

lemma set_strip: "set (strip s) \<subseteq> set s"
  by (auto simp: strip_def dest!: set_dropWhileD)

lemma strip_hd: "strip s \<noteq> [] \<Longrightarrow> \<not> is_space (hd (strip s))"
proof -
  assume ne: "strip s \<noteq> []"
  let ?a = "dropWhile is_space s"
  have a: "?a \<noteq> []"
  proof
    assume "?a = []"
    then have "strip s = []" unfolding strip_def by (simp only: rev.simps dropWhile.simps)
    with ne show False by simp
  qed
  then have h: "\<not> is_space (hd ?a)" by (rule hd_dropWhile)
  have "rev (strip s) = dropWhile is_space (rev ?a)" by (simp add: strip_def)
  then obtain zs where "rev ?a = zs @ rev (strip s)"
    by (metis takeWhile_dropWhile_id)
  then have "?a = strip s @ rev zs"
    by (metis rev_append rev_rev_ident)
  then have "hd ?a = hd (strip s)" using ne by (metis hd_append2)
  then show ?thesis using h by simp
qed

lemma strip_last: "strip s \<noteq> [] \<Longrightarrow> \<not> is_space (last (strip s))"
proof -
  assume ne: "strip s \<noteq> []"
  let ?b = "dropWhile is_space (rev (dropWhile is_space s))"
  have b: "?b \<noteq> []" using ne by (simp add: strip_def)
  then have "\<not> is_space (hd ?b)" by (rule hd_dropWhile)
  moreover have "last (strip s) = hd ?b"
    using b by (simp add: strip_def last_rev)
  ultimately show ?thesis by simp
qed

lemma join_empty_sep: "join [] xs = concat xs"
  by (induction xs rule: induct_list012) simp_all

lemma find_tag_decompose_all:
  "n \<in> set names \<Longrightarrow> find_tag n (decompose_all names soup) = None"
  by (induction names soup rule: decompose_all.induct) auto

lemma clean_lines_trimmed:
  assumes "l \<in> set (clean_lines text)"
  shows "l \<noteq> [] \<and> \<not> is_space (hd l) \<and> \<not> is_space (last l) \<and> (\<forall>c \<in> set l. \<not> is_linebreak c)"
proof -
  from assms obtain l0 where l0: "l0 \<in> set (splitlines text)" "strip l0 \<noteq> []" "l = strip l0"
    by (auto simp: clean_lines_def)
  have "\<forall>c \<in> set l. \<not> is_linebreak c"
    using l0(1,3) set_strip [of l0] splitlines_lines [of l0 "text"] by blast
  then show ?thesis
    using l0(2,3) strip_hd [of l0] strip_last [of l0] by simp
qed

lemma splitlines_clean_text: "splitlines (clean_text text) = clean_lines text"
  unfolding clean_text_def
  by (rule splitlines_join) (use clean_lines_trimmed in blast)

lemma strip_id:
  assumes "s \<noteq> []" and "\<not> is_space (hd s)" and "\<not> is_space (last s)"
  shows "strip s = s"
proof -
  have a: "dropWhile is_space s = s"
    using assms(1,2) by (cases s) simp_all
  have "rev s \<noteq> []" and "\<not> is_space (hd (rev s))"
    using assms(1,3) by (simp_all add: hd_rev)
  then have "dropWhile is_space (rev s) = rev s"
    by (cases "rev s") simp_all
  then show ?thesis
    by (simp add: strip_def a)
qed

lemma clean_text_id:
  assumes "s \<noteq> []" and "\<not> is_space (hd s)" and "\<not> is_space (last s)"
    and "\<forall>c \<in> set s. \<not> is_linebreak c"
  shows "clean_text s = s"
  using assms by (simp add: clean_text_def clean_lines_def splitlines_no_break strip_id)

lemma long_text_facts:
  "long_text \<noteq> []" "hd long_text = 0x78" "last long_text = 0x78"
  "set long_text = {0x78}" "length long_text = 15001"
  by (simp_all add: long_text_def)

lemma clean_long_text: "clean_text long_text = long_text"
  by (rule clean_text_id) (simp_all add: long_text_facts is_space_def is_linebreak_def)

lemma strip_long_text: "strip long_text = long_text"
  by (rule strip_id) (simp_all add: long_text_facts is_space_def)

lemma scrape_long_page:
  "scrape_webpage (page_env long_page) [] u =
     Some \<lparr>url = u, title = u, content = long_text, length' = 15001,
           timestamp = (py ''2024-01-01T00:00:00'')\<rparr>"
proof -
  have g: "http_get (page_env long_page) [] u = Some \<lparr>status_code = 200, resp_content = []\<rparr>"
    by (simp add: page_env_def)
  have p: "html_parser (page_env long_page) [] = Some long_page"
    by (simp add: page_env_def)
  have c: "clock (page_env long_page) [] = (py ''2024-01-01T00:00:00'')"
    by (simp add: page_env_def)
  have soup: "decompose_all noise long_page = long_page"
    by (simp add: long_page_def noise_def)
  have raw: "raw_text long_page = long_text"
    using long_text_facts(1)
    by (simp add: raw_text_def main_content_def long_page_def get_text_def strip_long_text)
  have t: "page_title long_page u = u"
    by (simp add: page_title_def long_page_def)
  have n: "int (length long_text) = 15001"
    by (simp add: long_text_facts(5))
  show ?thesis
    unfolding scrape_webpage_def g
    by (simp add: raise_for_status_def Let_def p c soup raw t clean_long_text n)
qed

section \<open>The JSON round trip\<close>
































































section \<open>The claims\<close>




text \<open>
  Claim C2 as stated fails. With \<open>max_pages = 1\<close> the record of the start page brings
  the count of fetched pages to \<open>max_pages\<close>; \<open>get_links\<close> then still requests
  the start page.
\<close>

theorem page_bound_counterexample:
  "trace (crawl (demo_env []) (py ''http://h/'') 1 2) =
     [Push (py ''http://h/'') 0, Fetch (py ''http://h/'') 0 True, LinkFetch (py ''http://h/''),
      Push (py ''http://h/a'') 1, Push (py ''http://h/b'') 1] \<and>
   successes [Push (py ''http://h/'') 0, Fetch (py ''http://h/'') 0 True] = [(py ''http://h/'')] \<and>
   gets (trace (crawl (demo_env []) (py ''http://h/'') 1 2)) = [(py ''http://h/''), (py ''http://h/'')]"
  by code_simp

text \<open>
  Claim C2, as amended. With \<open>max_pages \<ge> 1\<close> the result has at most \<open>max_pages\<close>
  records; every call of \<open>scrape_webpage\<close> is made while fewer than \<open>max_pages\<close>
  calls have returned a record; once \<open>max_pages\<close> calls have returned a record, the
  only request still made is that of \<open>get_links\<close> for the page of the last record,
  when its entry is below the depth bound, and all that follows are the appends of
  its links; and from a state whose visited set has \<open>max_pages\<close> elements the loop
  returns at once, whatever the queue holds.
\<close>

theorem page_bound:
  assumes "1 \<le> max_pages"
  shows "int (length (scrape_website e start_url max_pages max_depth)) \<le> max_pages \<and>
         (\<forall>pre u d b post.
            trace (crawl e start_url max_pages max_depth) = pre @ Fetch u d b # post \<longrightarrow>
            int (length (successes pre)) < max_pages) \<and>
         (\<forall>pre ev post.
            trace (crawl e start_url max_pages max_depth) = pre @ ev # post \<and>
            max_pages \<le> int (length (successes pre)) \<longrightarrow>
            (\<exists>u d. ev = Push u d) \<or>
            (\<exists>pre' u d. ev = LinkFetch u \<and> pre = pre' @ [Fetch u d True] \<and> d < max_depth \<and>
               int (length (successes pre)) = max_pages)) \<and>
         (\<forall>s. max_pages \<le> int (fcard (visited s)) \<longrightarrow>
            scrape_loop e start_url max_pages max_depth s = s)"
proof -
  let ?tr = "trace (crawl e start_url max_pages max_depth)"
  have "inv_budget max_pages (crawl e start_url max_pages max_depth)"
    using assms by (simp add: inv_budget_crawl)
  then have a: "int (length (scrape_website e start_url max_pages max_depth)) \<le> max_pages"
    and b: "\<forall>pre u d b post. ?tr = pre @ Fetch u d b # post \<longrightarrow>
            int (length (successes pre)) < max_pages"
    by (auto simp: inv_budget_def scrape_website_def each_fetch_def)
  have l: "\<exists>pre' d. pre = pre' @ [Fetch u d True] \<and> d < max_depth"
    if "?tr = pre @ LinkFetch u # post" for pre u post
    using that inv_link_crawl [of max_depth e start_url max_pages]
    unfolding inv_link_def each_link_fetch_def by blast
  have c: "(\<exists>u d. ev = Push u d) \<or>
            (\<exists>pre' u d. ev = LinkFetch u \<and> pre = pre' @ [Fetch u d True] \<and> d < max_depth \<and>
               int (length (successes pre)) = max_pages)"
    if eq: "?tr = pre @ ev # post" and cap: "max_pages \<le> int (length (successes pre))"
    for pre ev post
  proof (cases ev)
    case (Fetch u d b)
    then show ?thesis using eq cap b by fastforce
  next
    case (LinkFetch u)
    then obtain pre' d where p: "pre = pre' @ [Fetch u d True]" "d < max_depth"
      using eq l by blast
    have "?tr = pre' @ Fetch u d True # (LinkFetch u # post)"
      using eq p(1) LinkFetch by simp
    then have "int (length (successes pre')) < max_pages"
      using b by blast
    then have "int (length (successes pre)) = max_pages"
      using cap p(1) by simp
    then show ?thesis using LinkFetch p by blast
  next
    case (Push u d)
    then show ?thesis by blast
  qed
  have d: "scrape_loop e start_url max_pages max_depth s = s"
    if "max_pages \<le> int (fcard (visited s))" for s
    using that by (subst scrape_loop.simps) (simp add: loop_cond_def)
  show ?thesis
    using a b c d by (intro conjI allI impI) blast+
qed

text \<open>With \<open>max_pages = 1\<close> the start page is the only page fetched; the request
  of \<open>get_links\<close> follows its record, and two entries stay in the queue.\<close>

theorem page_bound_witness:
  "(1::int) \<le> 1 \<and>
   length (scrape_website (demo_env []) (py ''http://h/'') 1 2) = 1 \<and>
   trace (crawl (demo_env []) (py ''http://h/'') 1 2) =
     [Push (py ''http://h/'') 0, Fetch (py ''http://h/'') 0 True] @
     LinkFetch (py ''http://h/'') # [Push (py ''http://h/a'') 1, Push (py ''http://h/b'') 1] \<and>
   (1::int) \<le> int (length (successes [Push (py ''http://h/'') 0, Fetch (py ''http://h/'') 0 True])) \<and>
   (\<exists>pre' d. [Push (py ''http://h/'') 0, Fetch (py ''http://h/'') 0 True] =
       pre' @ [Fetch (py ''http://h/'') d True] \<and> d < 2) \<and>
   to_visit (crawl (demo_env []) (py ''http://h/'') 1 2) = [(py ''http://h/a'', 1), (py ''http://h/b'', 1)] \<and>
   fetches (trace (crawl (demo_env []) (py ''http://h/'') 1 2)) = [(py ''http://h/'', 0, True)]"
proof -
  let ?tr = "trace (crawl (demo_env []) (py ''http://h/'') 1 2)"
  let ?pre = "[Push (py ''http://h/'') 0, Fetch (py ''http://h/'') 0 True]"
  have h: "(1::int) \<le> 1" by simp
  have t: "to_visit (crawl (demo_env []) (py ''http://h/'') 1 2) = [(py ''http://h/a'', 1), (py ''http://h/b'', 1)]"
    by code_simp
  have f: "fetches ?tr = [(py ''http://h/'', 0, True)]"
    by code_simp
  have l: "length (scrape_website (demo_env []) (py ''http://h/'') 1 2) \<noteq> 0"
    by code_simp
  have tr: "?tr = ?pre @ LinkFetch (py ''http://h/'') # [Push (py ''http://h/a'') 1, Push (py ''http://h/b'') 1]"
    by code_simp
  have cap: "(1::int) \<le> int (length (successes ?pre))"
    by simp
  note th = page_bound [OF h, of "demo_env []" "(py ''http://h/'')" 2]
  from th have "int (length (scrape_website (demo_env []) (py ''http://h/'') 1 2)) \<le> 1"
    by (elim conjE)
  then have n: "length (scrape_website (demo_env []) (py ''http://h/'') 1 2) = 1"
    using l by linarith
  from th have "\<forall>pre ev post. ?tr = pre @ ev # post \<and> 1 \<le> int (length (successes pre)) \<longrightarrow>
            (\<exists>u d. ev = Push u d) \<or>
            (\<exists>pre' u d. ev = LinkFetch u \<and> pre = pre' @ [Fetch u d True] \<and> d < 2 \<and>
               int (length (successes pre)) = 1)"
    by (elim conjE)
  then have "(\<exists>u d. LinkFetch (py ''http://h/'') = Push u d) \<or>
            (\<exists>pre' u d. LinkFetch (py ''http://h/'') = LinkFetch u \<and> ?pre = pre' @ [Fetch u d True] \<and> d < 2 \<and>
               int (length (successes ?pre)) = 1)"
    using tr cap by blast
  then have c: "\<exists>pre' d. ?pre = pre' @ [Fetch (py ''http://h/'') d True] \<and> d < 2"
    by blast
  show ?thesis
    using h n tr cap c t f by (intro conjI)
qed

text \<open>
  Claim C3. With \<open>max_depth \<ge> 0\<close> every entry ever appended to the queue, the seed
  included, has a depth of at most \<open>max_depth\<close>, and the URL of every record is
  reached from the start URL by a path of at most \<open>max_depth\<close> links.
\<close>

theorem depth_bound:
  assumes "0 \<le> max_depth"
  shows "(\<forall>(u, d) \<in> set (pushes (trace (crawl e start_url max_pages max_depth))).
            d \<le> max_depth) \<and>
         (\<forall>(u, d) \<in> set (to_visit (crawl e start_url max_pages max_depth)).
            d \<le> max_depth) \<and>
         (\<forall>r \<in> set (scrape_website e start_url max_pages max_depth).
            \<exists>d. d \<le> max_depth \<and> link_path e start_url d (url r))"
proof -
  let ?s = "crawl e start_url max_pages max_depth"
  have d: "inv_depth e start_url max_depth ?s"
    using assms by (rule inv_depth_crawl)
  have v: "inv_visited ?s"
    by (rule inv_visited_crawl)
  have a: "\<forall>(u, d) \<in> set (pushes (trace ?s)). d \<le> max_depth"
    using d by (auto simp: inv_depth_def)
  have b: "\<forall>(u, d) \<in> set (to_visit ?s). d \<le> max_depth"
    using d by (auto simp: inv_depth_def)
  have c: "\<exists>d. d \<le> max_depth \<and> link_path e start_url d (url r)"
    if "r \<in> set (results ?s)" for r
  proof -
    have "map url (results ?s) = successes (trace ?s)"
      using v by (simp add: inv_visited_def)
    then have "url r \<in> set (successes (trace ?s))"
      using that by (metis imageI set_map)
    then obtain dd where "(url r, dd) \<in> set (attempts (trace ?s))"
      using successes_in_attempts [of "trace ?s"] by auto
    then have "(url r, dd) \<in> set (pushes (trace ?s))"
      using d by (auto simp: inv_depth_def)
    then show ?thesis
      using d by (auto simp: inv_depth_def)
  qed
  show ?thesis
    using a b c by (simp add: scrape_website_def)
qed

text \<open>With \<open>max_depth = 1\<close> on the small site.\<close>

theorem depth_bound_witness:
  "(0::int) \<le> 1 \<and>
   pushes (trace (crawl (demo_env []) (py ''http://h/'') 10 1)) =
     [(py ''http://h/'', 0), (py ''http://h/a'', 1), (py ''http://h/b'', 1)] \<and>
   map url (scrape_website (demo_env []) (py ''http://h/'') 10 1) =
     [(py ''http://h/''), (py ''http://h/a''), (py ''http://h/b'')] \<and>
   (\<exists>d. d \<le> 1 \<and> link_path (demo_env []) (py ''http://h/'') d (py ''http://h/b''))"
proof -
  have h: "(0::int) \<le> 1" by simp
  have p: "pushes (trace (crawl (demo_env []) (py ''http://h/'') 10 1)) =
     [(py ''http://h/'', 0), (py ''http://h/a'', 1), (py ''http://h/b'', 1)]"
    by code_simp
  have r: "map url (scrape_website (demo_env []) (py ''http://h/'') 10 1) =
     [(py ''http://h/''), (py ''http://h/a''), (py ''http://h/b'')]"
    by code_simp
  have "(py ''http://h/b'') \<in> set (map url (scrape_website (demo_env []) (py ''http://h/'') 10 1))"
    by (simp add: r)
  then obtain x where x: "x \<in> set (scrape_website (demo_env []) (py ''http://h/'') 10 1)"
    "url x = (py ''http://h/b'')"
    by auto
  have "\<exists>d. d \<le> 1 \<and> link_path (demo_env []) (py ''http://h/'') d (url x)"
    using depth_bound [OF h, of "demo_env []" "(py ''http://h/'')" 10] x(1) by blast
  then show ?thesis
    using h p r x(2) by simp
qed

text \<open>
  Claim C4 as stated fails. The start page has anchors to \<open>/a\<close> and to \<open>/b\<close>, in
  this order; \<open>get_links\<close> returns the links as a Python set, whose iteration
  visits \<open>/b\<close> first here, and \<open>/b\<close> is fetched before \<open>/a\<close>.
\<close>

theorem bfs_order_counterexample:
  "html_parser (shuffled_env []) ''http://h/'' =
     Some [anchor (py ''http://h/a''), anchor (py ''http://h/b''), anchor (py ''http://other/x'')] \<and>
   attempts (trace (crawl (shuffled_env []) (py ''http://h/'') 10 1)) =
     [(py ''http://h/'', 0), (py ''http://h/b'', 1), (py ''http://h/a'', 1)] \<and>
   map url (scrape_website (shuffled_env []) (py ''http://h/'') 10 1) =
     [(py ''http://h/''), (py ''http://h/b''), (py ''http://h/a'')]"
  by code_simp

text \<open>
  Claim C4, as amended. The calls of \<open>scrape_webpage\<close> are made in order of
  non-decreasing depth and in the order in which their entries were appended to the
  queue; the URLs in the order of their first fetch follow the order in which the
  URLs were first appended. The URLs of the records are, in order, URLs of these
  calls, and on a static site they are the first fetches of the URLs that can be
  scraped. The links of one page are appended behind the entries of the queue in the
  iteration order of the set \<open>get_links\<close> returns, which need not be the order of
  the anchors in the page.
\<close>

theorem bfs_order:
  "sorted (map snd (attempts (trace (crawl e start_url max_pages max_depth)))) \<and>
   subseq (attempts (trace (crawl e start_url max_pages max_depth)))
          (pushes (trace (crawl e start_url max_pages max_depth))) \<and>
   subseq (first_occurrences (map fst (attempts (trace (crawl e start_url max_pages max_depth)))))
          (first_occurrences (map fst (pushes (trace (crawl e start_url max_pages max_depth))))) \<and>
   subseq (map url (scrape_website e start_url max_pages max_depth))
          (map fst (attempts (trace (crawl e start_url max_pages max_depth)))) \<and>
   (static e \<longrightarrow>
      map url (scrape_website e start_url max_pages max_depth) =
        filter (scrape_ok e)
          (first_occurrences (map fst (attempts (trace (crawl e start_url max_pages max_depth)))))) \<and>
   (\<forall>s u depth rest data.
      to_visit s = (u, depth) # rest \<and> u |\<notin>| visited s \<and> depth < max_depth \<and>
      scrape_webpage e (trace s) u = Some data \<longrightarrow>
      to_visit (loop_body e start_url max_depth s) =
        rest @ map (\<lambda>v. (v, depth + 1))
                 (filter (\<lambda>v. v \<noteq> u \<and> v |\<notin>| visited s)
                    (sort_key (hash_order e (trace s @ [Fetch u depth True, LinkFetch u]))
                       (get_links e (trace s @ [Fetch u depth True]) u start_url))))"
proof -
  let ?s = "crawl e start_url max_pages max_depth"
  from inv_order_crawl [of e start_url max_pages max_depth] obtain popped where
    p: "pushes (trace ?s) = popped @ to_visit ?s" "subseq (attempts (trace ?s)) popped"
    and srt: "sorted (map snd (pushes (trace ?s)))"
    by (auto simp: inv_order_def)
  have a: "subseq (attempts (trace ?s)) (pushes (trace ?s))"
    using p by (simp add: list_emb_prefix)
  then have "subseq (map snd (attempts (trace ?s))) (map snd (pushes (trace ?s)))"
    by (rule subseq_map)
  then have b: "sorted (map snd (attempts (trace ?s)))"
    using srt by (rule subseq_sorted)
  have res: "map url (results ?s) = successes (trace ?s)"
    using inv_visited_crawl [of e start_url max_pages max_depth] by (simp add: inv_visited_def)
  then have c: "subseq (map url (scrape_website e start_url max_pages max_depth))
          (map fst (attempts (trace ?s)))"
    by (simp add: scrape_website_def successes_subseq_attempts)
  from inv_first_crawl [of max_depth e start_url max_pages] obtain popped' where
    q: "pushes (trace ?s) = popped' @ to_visit ?s"
       "subseq (first_occurrences (map fst (attempts (trace ?s))))
               (first_occurrences (map fst popped'))"
    unfolding inv_first_def by blast
  have "subseq (first_occurrences (map fst popped'))
               (first_occurrences (map fst popped' @ map fst (to_visit ?s)))"
    by (rule first_occurrences_prefix)
  then have d: "subseq (first_occurrences (map fst (attempts (trace ?s))))
          (first_occurrences (map fst (pushes (trace ?s))))"
    using q by (metis map_append subseq_order.order_trans)
  have f: "map url (scrape_website e start_url max_pages max_depth) =
        filter (scrape_ok e) (first_occurrences (map fst (attempts (trace ?s))))"
    if "static e"
    using inv_static_crawl [OF that, of start_url max_pages max_depth] res
    by (simp add: inv_static_def scrape_website_def)
  have g: "to_visit (loop_body e start_url max_depth s) =
        rest @ map (\<lambda>v. (v, depth + 1))
                 (filter (\<lambda>v. v \<noteq> u \<and> v |\<notin>| visited s)
                    (sort_key (hash_order e (trace s @ [Fetch u depth True, LinkFetch u]))
                       (get_links e (trace s @ [Fetch u depth True]) u start_url)))"
    if "to_visit s = (u, depth) # rest" "u |\<notin>| visited s" "depth < max_depth"
      "scrape_webpage e (trace s) u = Some data" for s u depth rest data
    unfolding loop_body_expand [OF that] foldl_push_to_visit new_entries_def
    by (simp add: conj_commute)
  have h: "\<forall>s u depth rest data.
      to_visit s = (u, depth) # rest \<and> u |\<notin>| visited s \<and> depth < max_depth \<and>
      scrape_webpage e (trace s) u = Some data \<longrightarrow>
      to_visit (loop_body e start_url max_depth s) =
        rest @ map (\<lambda>v. (v, depth + 1))
                 (filter (\<lambda>v. v \<noteq> u \<and> v |\<notin>| visited s)
                    (sort_key (hash_order e (trace s @ [Fetch u depth True, LinkFetch u]))
                       (get_links e (trace s @ [Fetch u depth True]) u start_url)))"
    by (intro allI impI, elim conjE) (rule g)
  show ?thesis
    using a b c d f h by (intro conjI impI)
qed

text \<open>On the small site with \<open>/a\<close> failing and \<open>/b\<close> first in the iteration of
  the links: \<open>/b\<close> is fetched before \<open>/a\<close>, \<open>/a\<close> is fetched twice, and the
  records are the first fetches that succeed.\<close>

theorem bfs_order_witness:
  "static (shuffled_env [(py ''http://h/a'')]) \<and>
   attempts (trace (crawl (shuffled_env [(py ''http://h/a'')]) (py ''http://h/'') 10 2)) =
     [(py ''http://h/'', 0), (py ''http://h/b'', 1), (py ''http://h/a'', 1), (py ''http://h/a'', 2)] \<and>
   pushes (trace (crawl (shuffled_env [(py ''http://h/a'')]) (py ''http://h/'') 10 2)) =
     [(py ''http://h/'', 0), (py ''http://h/b'', 1), (py ''http://h/a'', 1), (py ''http://h/a'', 2)] \<and>
   first_occurrences [(py ''http://h/''), (py ''http://h/b''), (py ''http://h/a''), (py ''http://h/a'')] =
     [(py ''http://h/''), (py ''http://h/b''), (py ''http://h/a'')] \<and>
   map url (scrape_website (shuffled_env [(py ''http://h/a'')]) (py ''http://h/'') 10 2) =
     filter (scrape_ok (shuffled_env [(py ''http://h/a'')]))
       [(py ''http://h/''), (py ''http://h/b''), (py ''http://h/a'')] \<and>
   filter (scrape_ok (shuffled_env [(py ''http://h/a'')]))
       [(py ''http://h/''), (py ''http://h/b''), (py ''http://h/a'')] =
     [(py ''http://h/''), (py ''http://h/b'')] \<and>
   get_links (shuffled_env [(py ''http://h/a'')]) [Push (py ''http://h/'') 0, Fetch (py ''http://h/'') 0 True]
       (py ''http://h/'') (py ''http://h/'') = [(py ''http://h/a''), (py ''http://h/b'')] \<and>
   to_visit (loop_body (shuffled_env [(py ''http://h/a'')]) (py ''http://h/'') 2 (initial (py ''http://h/''))) =
     [(py ''http://h/b'', 1), (py ''http://h/a'', 1)]"
proof -
  let ?e = "shuffled_env [(py ''http://h/a'')]"
  let ?u = "py ''http://h/''"
  have st: "static ?e"
    by (simp add: static_def shuffled_env_def demo_env_def)
  have at: "attempts (trace (crawl ?e ?u 10 2)) =
     [(py ''http://h/'', 0), (py ''http://h/b'', 1), (py ''http://h/a'', 1), (py ''http://h/a'', 2)]"
    by code_simp
  have pu: "pushes (trace (crawl ?e ?u 10 2)) =
     [(py ''http://h/'', 0), (py ''http://h/b'', 1), (py ''http://h/a'', 1), (py ''http://h/a'', 2)]"
    by code_simp
  have fo: "first_occurrences [(py ''http://h/''), (py ''http://h/b''), (py ''http://h/a''), (py ''http://h/a'')] =
     [(py ''http://h/''), (py ''http://h/b''), (py ''http://h/a'')]"
    by code_simp
  have fi: "filter (scrape_ok ?e) [(py ''http://h/''), (py ''http://h/b''), (py ''http://h/a'')] =
     [(py ''http://h/''), (py ''http://h/b'')]"
    by code_simp
  have gl: "get_links ?e [Push ?u 0, Fetch ?u 0 True] ?u ?u = [(py ''http://h/a''), (py ''http://h/b'')]"
    by code_simp
  note th = bfs_order [of ?e ?u 10 2]
  from th have "static ?e \<longrightarrow>
      map url (scrape_website ?e ?u 10 2) =
        filter (scrape_ok ?e) (first_occurrences (map fst (attempts (trace (crawl ?e ?u 10 2)))))"
    by (elim conjE)
  then have re: "map url (scrape_website ?e ?u 10 2) =
     filter (scrape_ok ?e) [(py ''http://h/''), (py ''http://h/b''), (py ''http://h/a'')]"
    using st by (simp add: at fo)
  from th have ex: "\<forall>s u depth rest data.
      to_visit s = (u, depth) # rest \<and> u |\<notin>| visited s \<and> depth < 2 \<and>
      scrape_webpage ?e (trace s) u = Some data \<longrightarrow>
      to_visit (loop_body ?e ?u 2 s) =
        rest @ map (\<lambda>v. (v, depth + 1))
                 (filter (\<lambda>v. v \<noteq> u \<and> v |\<notin>| visited s)
                    (sort_key (hash_order ?e (trace s @ [Fetch u depth True, LinkFetch u]))
                       (get_links ?e (trace s @ [Fetch u depth True]) u ?u)))"
    by (elim conjE)
  have i1: "to_visit (initial ?u) = (?u, 0) # []" "?u |\<notin>| visited (initial ?u)" "(0::int) < 2"
    by (simp_all add: initial_def)
  have "scrape_webpage ?e (trace (initial ?u)) ?u \<noteq> None"
    by code_simp
  then obtain data where i2: "scrape_webpage ?e (trace (initial ?u)) ?u = Some data"
    by blast
  have "to_visit (loop_body ?e ?u 2 (initial ?u)) =
        [] @ map (\<lambda>v. (v, 0 + 1))
                 (filter (\<lambda>v. v \<noteq> ?u \<and> v |\<notin>| visited (initial ?u))
                    (sort_key (hash_order ?e (trace (initial ?u) @ [Fetch ?u 0 True, LinkFetch ?u]))
                       (get_links ?e (trace (initial ?u) @ [Fetch ?u 0 True]) ?u ?u)))"
    using ex i1 i2 by blast
  also have "\<dots> = [(py ''http://h/b'', 1), (py ''http://h/a'', 1)]"
    by code_simp
  finally have tv: "to_visit (loop_body ?e ?u 2 (initial ?u)) =
     [(py ''http://h/b'', 1), (py ''http://h/a'', 1)]" .
  show ?thesis
    using st at pu fo re fi gl tv by (intro conjI)
qed

text \<open>
  Claim C5. Every link is cut at its fragment (lines 72 and 73), the start URL is
  taken as it is given (line 85). Started at \<open>/#top\<close> on a site whose start page
  links to itself, the crawl requests the start page for \<open>/#top\<close> and again for
  \<open>/\<close> and records it twice: two records have the same URL once the fragment is
  stripped.
\<close>

theorem start_url_fragment_recorded_twice:
  "map url (scrape_website home_env (py ''http://h/#top'') 10 2) =
     [py ''http://h/#top'', py ''http://h/'', py ''http://h/a''] \<and>
   map (\<lambda>r. split_hash_0 (url r)) (scrape_website home_env (py ''http://h/#top'') 10 2) =
     [py ''http://h/'', py ''http://h/'', py ''http://h/a''] \<and>
   gets (trace (crawl home_env (py ''http://h/#top'') 10 2)) =
     [py ''http://h/#top'', py ''http://h/#top'', py ''http://h/'', py ''http://h/'',
      py ''http://h/a'', py ''http://h/a'']"
  by code_simp

text \<open>
  Claim C7 as stated fails. The page \<open>/a\<close> answers 500 to the first request and
  200 afterwards: it is skipped when it fails, appended again from \<open>/b\<close>, fetched
  again and recorded, so the final result holds the page that failed. And a status
  that is no success and lies outside 400 to 599, here 304, is no failure for
  \<open>scrape_webpage\<close>: a record is returned.
\<close>

theorem fetch_failure_is_skipped_counterexample:
  "fetches (trace (crawl flaky_env (py ''http://h/'') 10 2)) =
     [(py ''http://h/'', 0, True), (py ''http://h/a'', 1, False), (py ''http://h/b'', 1, True),
      (py ''http://h/a'', 2, True)] \<and>
   map url (scrape_website flaky_env (py ''http://h/'') 10 2) =
     [py ''http://h/'', py ''http://h/b'', py ''http://h/a''] \<and>
   http_get (status_env 304) [] (py ''http://h/'') = Some \<lparr>status_code = 304, resp_content = []\<rparr> \<and>
   scrape_webpage (status_env 304) [] (py ''http://h/'') =
     Some \<lparr>url = py ''http://h/'', title = py ''http://h/'', content = [], length' = 0,
           timestamp = py ''2024-01-01T00:00:00''\<rparr>"
  by code_simp

text \<open>
  Claim C7, as amended. When the request for the entry at the head of the queue
  raises or answers with a status from 400 to 599, \<open>scrape_webpage\<close> returns
  \<open>None\<close>; the turn of the loop removes the entry and changes neither the results
  nor the visited set, so no page of the budget is used; the loop goes on with the
  rest of the queue; the result holds a URL exactly when some fetch of it returned a
  record, so the page is left out unless a later fetch of it succeeds; and on a site
  that answers the requests for a URL the same way at every moment the page is not
  in the result.
\<close>

theorem fetch_failure_is_skipped:
  assumes "to_visit s = (u, depth) # rest" and "u |\<notin>| visited s" and "depth \<le> max_depth"
    and "http_get e (trace s) u = None \<or>
         (\<exists>r. http_get e (trace s) u = Some r \<and> 400 \<le> status_code r \<and> status_code r < 600)"
  shows "scrape_webpage e (trace s) u = None \<and>
         loop_body e start_url max_depth s =
           s\<lparr>to_visit := rest, trace := trace s @ [Fetch u depth False]\<rparr> \<and>
         results (loop_body e start_url max_depth s) = results s \<and>
         visited (loop_body e start_url max_depth s) = visited s \<and>
         (int (fcard (visited s)) < max_pages \<longrightarrow>
            scrape_loop e start_url max_pages max_depth s =
            scrape_loop e start_url max_pages max_depth
              (s\<lparr>to_visit := rest, trace := trace s @ [Fetch u depth False]\<rparr>)) \<and>
         (\<forall>v. v \<in> set (map url (scrape_website e start_url max_pages max_depth)) \<longleftrightarrow>
              (\<exists>d. (v, d, True) \<in> set (fetches (trace (crawl e start_url max_pages max_depth))))) \<and>
         (static e \<longrightarrow> u \<notin> set (map url (scrape_website e start_url max_pages max_depth)))"
proof -
  have none: "scrape_webpage e (trace s) u = None"
    using assms(4) by (auto simp: scrape_webpage_def raise_for_status_def)
  have body: "loop_body e start_url max_depth s =
           s\<lparr>to_visit := rest, trace := trace s @ [Fetch u depth False]\<rparr>"
    using assms(1,2,3) none by (rule loop_body_fail)
  have loop: "scrape_loop e start_url max_pages max_depth s =
            scrape_loop e start_url max_pages max_depth
              (s\<lparr>to_visit := rest, trace := trace s @ [Fetch u depth False]\<rparr>)"
    if "int (fcard (visited s)) < max_pages"
    using that assms(1) body
    by (subst scrape_loop.simps) (simp add: loop_cond_def)
  have "map url (results (crawl e start_url max_pages max_depth)) =
          successes (trace (crawl e start_url max_pages max_depth))"
    using inv_visited_crawl [of e start_url max_pages max_depth] by (simp add: inv_visited_def)
  then have fin: "\<forall>v. v \<in> set (map url (scrape_website e start_url max_pages max_depth)) \<longleftrightarrow>
              (\<exists>d. (v, d, True) \<in> set (fetches (trace (crawl e start_url max_pages max_depth))))"
    by (simp only: scrape_website_def successes_iff) simp
  have stat: "u \<notin> set (map url (scrape_website e start_url max_pages max_depth))" if "static e"
  proof -
    have "\<not> scrape_ok e u"
      using static_scrape_ok [OF that, of "trace s" u] none by simp
    moreover have "map url (scrape_website e start_url max_pages max_depth) =
        filter (scrape_ok e)
          (first_occurrences (map fst (attempts (trace (crawl e start_url max_pages max_depth)))))"
      using inv_static_crawl [OF that, of start_url max_pages max_depth]
      by (simp add: inv_static_def inv_visited_def scrape_website_def)
    ultimately show ?thesis by simp
  qed
  show ?thesis
    using none body loop fin stat by simp
qed

text \<open>The page \<open>/a\<close> answers 500 every time: it is skipped and the result omits
  it.\<close>

theorem fetch_failure_is_skipped_witness:
  "scrape_webpage (demo_env [(py ''http://h/a'')]) [] (py ''http://h/a'') = None \<and>
   loop_body (demo_env [(py ''http://h/a'')]) (py ''http://h/'') 2
     \<lparr>visited = {|(py ''http://h/'')|}, to_visit = [(py ''http://h/a'', 1), (py ''http://h/b'', 1)],
      results = [], trace = []\<rparr> =
     \<lparr>visited = {|(py ''http://h/'')|}, to_visit = [(py ''http://h/b'', 1)],
      results = [], trace = [Fetch (py ''http://h/a'') 1 False]\<rparr> \<and>
   static (demo_env [(py ''http://h/a'')]) \<and>
   py ''http://h/a'' \<notin> set (map url (scrape_website (demo_env [(py ''http://h/a'')]) (py ''http://h/'') 10 2)) \<and>
   map url (scrape_website (demo_env [(py ''http://h/a'')]) (py ''http://h/'') 10 2) =
     [(py ''http://h/''), (py ''http://h/b'')]"
proof -
  let ?e = "demo_env [(py ''http://h/a'')]"
  let ?s = "\<lparr>visited = {|(py ''http://h/'')|}, to_visit = [(py ''http://h/a'', 1), (py ''http://h/b'', 1)],
      results = [], trace = []\<rparr>"
  have 1: "to_visit ?s = (py ''http://h/a'', 1) # [(py ''http://h/b'', 1)]" by simp
  have 2: "(py ''http://h/a'') |\<notin>| visited ?s" by simp
  have 3: "(1::int) \<le> 2" by simp
  have 4: "http_get ?e (trace ?s) (py ''http://h/a'') = None \<or>
         (\<exists>r. http_get ?e (trace ?s) (py ''http://h/a'') = Some r \<and> 400 \<le> status_code r \<and> status_code r < 600)"
    by (simp add: demo_env_def)
  have st: "static ?e"
    by (simp add: static_def demo_env_def)
  have r: "map url (scrape_website ?e (py ''http://h/'') 10 2) = [(py ''http://h/''), (py ''http://h/b'')]"
    by code_simp
  note t = fetch_failure_is_skipped [OF 1 2 3 4, of "(py ''http://h/'')" 10]
  from t have a: "scrape_webpage ?e (trace ?s) (py ''http://h/a'') = None"
    by (rule conjunct1)
  from t have b: "loop_body ?e (py ''http://h/'') 2 ?s =
      ?s\<lparr>to_visit := [(py ''http://h/b'', 1)], trace := trace ?s @ [Fetch (py ''http://h/a'') 1 False]\<rparr>"
    by (elim conjE)
  from t have "static ?e \<longrightarrow> py ''http://h/a'' \<notin> set (map url (scrape_website ?e (py ''http://h/'') 10 2))"
    by (elim conjE)
  then have c: "py ''http://h/a'' \<notin> set (map url (scrape_website ?e (py ''http://h/'') 10 2))"
    using st by simp
  from a have a': "scrape_webpage ?e [] (py ''http://h/a'') = None"
    by simp
  from b have b': "loop_body ?e (py ''http://h/'') 2 ?s =
     \<lparr>visited = {|(py ''http://h/'')|}, to_visit = [(py ''http://h/b'', 1)],
      results = [], trace = [Fetch (py ''http://h/a'') 1 False]\<rparr>"
    by simp
  show ?thesis
    using a' b' st c r by (intro conjI)
qed

text \<open>
  Claim C6 as stated fails. The page has an anchor to \<open>/a\<close> on the crawl's host and
  an anchor whose href cannot be resolved; \<open>urljoin\<close> raises on the second, the
  exception is caught around the whole function and the link set is empty.
\<close>

theorem links_same_origin_counterexample:
  "html_parser (page_env bad_href_page) [] = Some bad_href_page \<and>
   find_all_href (py ''a'') bad_href_page = [(py ''http://h/a''), (py ''http://[bad'')] \<and>
   link_of (page_env bad_href_page) (py ''http://h/'') (py ''http://h/a'') (py ''http://h/a'') \<and>
   get_links (page_env bad_href_page) [] (py ''http://h/'') (py ''http://h/'') = []"
  by code_simp

text \<open>
  Claim C6, as amended. When every href of the page's anchors can be resolved, the
  links \<open>get_links\<close> returns are exactly the hrefs of the anchors, each resolved
  against the base URL it is given, kept when the resolved URL has the network
  location of the base URL, and cut at the first \<open>#\<close>; when one cannot be resolved,
  or the request fails, or the parser rejects the markup, no link is returned. No link is returned twice and none
  contains a \<open>#\<close>, so two URLs that differ only in the fragment give one link. The
  crawl passes the start URL as base: every entry it appends after the seed is such
  a link for the start URL.
\<close>

theorem links_same_origin:
  "set (get_links e tr u base_url) =
     (case http_get e tr u of
        None \<Rightarrow> {}
      | Some response \<Rightarrow>
          (case html_parser e (resp_content response) of
             None \<Rightarrow> {}
           | Some document \<Rightarrow>
               (if \<forall>href \<in> set (find_all_href (py ''a'') document). resolves e base_url href
                then {v. \<exists>href \<in> set (find_all_href (py ''a'') document).
                           link_of e base_url href v}
                else {}))) \<and>
   distinct (get_links e tr u base_url) \<and>
   (\<forall>l \<in> set (get_links e tr u base_url). 0x23 \<notin> set l) \<and>
   (\<forall>x f g. 0x23 \<notin> set x \<longrightarrow>
      split_hash_0 (x @ 0x23 # f) = split_hash_0 (x @ 0x23 # g)) \<and>
   (\<forall>(v, d) \<in> set (tl (pushes (trace (crawl e start_url max_pages max_depth)))).
      \<exists>href. link_of e start_url href v)"
proof -
  have a: "\<forall>l \<in> set (get_links e tr u base_url). 0x23 \<notin> set l"
    using get_links_member [of _ e tr u base_url] link_of_no_hash by blast
  have b: "\<forall>x f g. 0x23 \<notin> set x \<longrightarrow>
      split_hash_0 (x @ 0x23 # f) = split_hash_0 (x @ 0x23 # g)"
    by (simp add: split_hash_0_fragment)
  have c: "\<forall>(v, d) \<in> set (tl (pushes (trace (crawl e start_url max_pages max_depth)))).
      \<exists>href. link_of e start_url href v"
    using inv_origin_crawl [of e start_url max_pages max_depth] get_links_member [of _ e _ _ start_url]
    unfolding inv_origin_def by fastforce
  show ?thesis
    using get_links_set [of e tr u base_url] get_links_distinct [of e tr u base_url] a b c
    by (intro conjI)
qed

text \<open>On the small site the link to the other host is dropped and \<open>/a#top\<close>
  becomes \<open>/a\<close>.\<close>

theorem links_same_origin_witness:
  "get_links (demo_env []) [] (py ''http://h/'') (py ''http://h/'') = [(py ''http://h/a''), (py ''http://h/b'')] \<and>
   get_links (demo_env []) [] (py ''http://h/b'') (py ''http://h/'') = [(py ''http://h/a'')] \<and>
   link_of (demo_env []) (py ''http://h/'') (py ''http://h/a#top'') (py ''http://h/a'') \<and>
   0x23 \<notin> set (py ''http://h/a'') \<and>
   tl (pushes (trace (crawl (demo_env []) (py ''http://h/'') 10 2))) =
     [(py ''http://h/a'', 1), (py ''http://h/b'', 1)]"
proof -
  have 1: "get_links (demo_env []) [] (py ''http://h/'') (py ''http://h/'') = [(py ''http://h/a''), (py ''http://h/b'')]"
    by code_simp
  have 2: "get_links (demo_env []) [] (py ''http://h/b'') (py ''http://h/'') = [(py ''http://h/a'')]"
    by code_simp
  have 3: "tl (pushes (trace (crawl (demo_env []) (py ''http://h/'') 10 2))) =
     [(py ''http://h/a'', 1), (py ''http://h/b'', 1)]"
    by code_simp
  have 4: "link_of (demo_env []) (py ''http://h/'') (py ''http://h/a#top'') (py ''http://h/a'')"
    by code_simp
  have "\<forall>l \<in> set (get_links (demo_env []) [] (py ''http://h/b'') (py ''http://h/'')). 0x23 \<notin> set l"
    using links_same_origin [of "demo_env []" "[]" "(py ''http://h/b'')" "(py ''http://h/'')" "(py ''http://h/'')" 10 2]
    by (elim conjE)
  then have "0x23 \<notin> set (py ''http://h/a'')"
    unfolding 2 by simp
  then show ?thesis using 1 2 3 4 by (intro conjI)
qed

text \<open>
  Claim C8 as stated fails. The document has a title element, inside a header; the
  header is removed before the title is looked up, so the record's title is the URL.
\<close>

theorem extraction_counterexample:
  "html_parser (page_env header_page) [] = Some header_page \<and>
   find_tag (py ''title'') header_page =
     Some (Tag (py ''title'') [] [NavigableString (py ''T'')]) \<and>
   scrape_webpage (page_env header_page) [] (py ''http://h/'') =
     Some \<lparr>url = (py ''http://h/''), title = (py ''http://h/''), content = (py ''x''), length' = 1,
           timestamp = (py ''2024-01-01T00:00:00'')\<rparr>"
  by code_simp

text \<open>
  Claim C8, as amended. When the request succeeds, the record is computed from the
  document without its script, style, nav, footer and header tags: the title is the
  text of the first title tag left there, else the URL; the text is taken from the
  first main tag, else the first article tag, else the body, else the whole remaining
  document; and the lines of the content are the stripped lines of that text that
  are not empty, each without a space at either end, joined by single newlines. Markup
  that the parser rejects gives no record.
\<close>

theorem extraction:
  assumes "http_get e tr u = Some response" and "\<not> raise_for_status response"
  shows "case html_parser e (resp_content response) of
      None \<Rightarrow> scrape_webpage e tr u = None
    | Some document \<Rightarrow>
       (\<exists>r. scrape_webpage e tr u = Some r \<and>
         (let soup = decompose_all noise document;
              region = (case find_tag (py ''main'') soup of
                          Some m \<Rightarrow> contents m
                        | None \<Rightarrow> (case find_tag (py ''article'') soup of
                                     Some a \<Rightarrow> contents a
                                   | None \<Rightarrow> (case find_tag (py ''body'') soup of
                                                Some b \<Rightarrow> contents b
                                              | None \<Rightarrow> soup)));
              raw = get_text [0x0A] True region
          in (\<forall>n \<in> set noise. find_tag n soup = None) \<and>
             title r = (case find_tag (py ''title'') soup of
                          Some t \<Rightarrow> concat (all_strings (contents t))
                        | None \<Rightarrow> u) \<and>
             splitlines (content r) =
               map strip (filter (\<lambda>line. strip line \<noteq> []) (splitlines raw)) \<and>
             content r = join [0x0A] (splitlines (content r)) \<and>
             (\<forall>l \<in> set (splitlines (content r)).
                l \<noteq> [] \<and> \<not> is_space (hd l) \<and> \<not> is_space (last l))))"
proof (cases "html_parser e (resp_content response)")
  case None
  then show ?thesis
    using assms by (simp add: scrape_webpage_def)
next
  case (Some document)
  let ?soup = "decompose_all noise document"
  let ?region = "case find_tag (py ''main'') ?soup of
                      Some m \<Rightarrow> contents m
                    | None \<Rightarrow> (case find_tag (py ''article'') ?soup of
                                 Some a \<Rightarrow> contents a
                               | None \<Rightarrow> (case find_tag (py ''body'') ?soup of
                                            Some b \<Rightarrow> contents b
                                          | None \<Rightarrow> ?soup))"
  let ?raw = "get_text [0x0A] True ?region"
  let ?r = "\<lparr>url = u, title = page_title ?soup u, content = clean_text (raw_text ?soup),
            length' = int (length (clean_text (raw_text ?soup))), timestamp = clock e tr\<rparr>"
  have r: "scrape_webpage e tr u = Some ?r"
    using assms Some by (simp add: scrape_webpage_def Let_def)
  have raw: "raw_text ?soup = ?raw"
    by (simp add: raw_text_def main_content_def split: option.splits)
  have n: "\<forall>n \<in> set noise. find_tag n ?soup = None"
    by (simp add: find_tag_decompose_all)
  have t: "title ?r = (case find_tag (py ''title'') ?soup of
                      Some t \<Rightarrow> concat (all_strings (contents t))
                    | None \<Rightarrow> u)"
    by (simp add: page_title_def get_text_def join_empty_sep split: option.splits)
  have l: "splitlines (content ?r) =
           map strip (filter (\<lambda>line. strip line \<noteq> []) (splitlines ?raw))"
    by (simp add: raw splitlines_clean_text clean_lines_def)
  have j: "content ?r = join [0x0A] (splitlines (content ?r))"
    by (simp add: splitlines_clean_text) (simp add: clean_text_def)
  have tr: "\<forall>l \<in> set (splitlines (content ?r)).
            l \<noteq> [] \<and> \<not> is_space (hd l) \<and> \<not> is_space (last l)"
    using clean_lines_trimmed by (simp add: splitlines_clean_text)
  show ?thesis
    unfolding Some option.case Let_def
    apply (rule exI [of _ ?r])
    apply (intro conjI)
         apply (rule r)
        apply (rule n)
       apply (rule t)
      apply (rule l)
     apply (rule j)
    apply (rule tr)
    done
qed

text \<open>The sample page: the navigation, the script and the footer leave no text.\<close>

theorem extraction_witness:
  "http_get (page_env sample_page) [] (py ''http://h/'') = Some \<lparr>status_code = 200, resp_content = []\<rparr> \<and>
   \<not> raise_for_status \<lparr>status_code = 200, resp_content = []\<rparr> \<and>
   scrape_webpage (page_env sample_page) [] (py ''http://h/'') =
     Some \<lparr>url = (py ''http://h/''), title = (py ''Home''),
           content = (py ''Hello'') @ [0x0A] @ (py ''world'') @ [0x0A] @ (py ''bye''),
           length' = 15, timestamp = (py ''2024-01-01T00:00:00'')\<rparr> \<and>
   splitlines (py ''Hello'' @ [0x0A] @ (py ''world'') @ [0x0A] @ (py ''bye'')) =
     [(py ''Hello''), (py ''world''), (py ''bye'')]"
proof -
  have 1: "http_get (page_env sample_page) [] (py ''http://h/'') =
      Some \<lparr>status_code = 200, resp_content = []\<rparr>"
    by (simp add: page_env_def)
  have 2: "\<not> raise_for_status \<lparr>status_code = 200, resp_content = []\<rparr>"
    by (simp add: raise_for_status_def)
  have 3: "scrape_webpage (page_env sample_page) [] (py ''http://h/'') =
     Some \<lparr>url = (py ''http://h/''), title = (py ''Home''),
           content = (py ''Hello'') @ [0x0A] @ (py ''world'') @ [0x0A] @ (py ''bye''),
           length' = 15, timestamp = (py ''2024-01-01T00:00:00'')\<rparr>"
    by code_simp
  have 4: "splitlines (py ''Hello'' @ [0x0A] @ (py ''world'') @ [0x0A] @ (py ''bye'')) =
     [(py ''Hello''), (py ''world''), (py ''bye'')]"
    by code_simp
  have 5: "html_parser (page_env sample_page)
              (resp_content \<lparr>status_code = 200, resp_content = []\<rparr>) = Some sample_page"
    by (simp add: page_env_def)
  have "\<exists>r. scrape_webpage (page_env sample_page) [] (py ''http://h/'') = Some r"
    using extraction [OF 1 2, unfolded 5 option.case]
    by (elim exE conjE) (rule exI)
  then show ?thesis
    using 1 2 3 4 by (intro conjI)
qed




text \<open>
  Claim C10. A record of \<open>scrape_webpage\<close> has \<open>length\<close> equal to the number of
  characters of its content. A record of \<open>scrape_url\<close> holds the first 15000
  characters of the text \<open>scrape_webpage\<close> extracts from the same answer and the
  length of the whole text: its length is at least the number of characters of its
  content, and equal to it exactly when the text has at most 15000 characters.
\<close>

theorem record_length:
  "(scrape_webpage e tr u = Some r \<longrightarrow> length' r = int (length (content r))) \<and>
   (scrape_url e tr u = Inr q \<longrightarrow>
      (\<exists>r. scrape_webpage e tr u = Some r \<and>
           u_content q = take 15000 (content r) \<and>
           u_length q = int (length (content r)) \<and>
           length (u_content q) \<le> 15000 \<and>
           int (length (u_content q)) \<le> u_length q \<and>
           (u_length q = int (length (u_content q)) \<longleftrightarrow> length (content r) \<le> 15000)))"
  by (auto simp: scrape_webpage_def scrape_url_def Let_def split: option.splits if_splits)

text \<open>A page of 15001 characters: the chat layer keeps 15000 and reports 15001.\<close>

theorem record_length_witness:
  "(\<exists>q. scrape_url (page_env long_page) [] (py ''http://h/'') = Inr q \<and>
        u_length q = 15001 \<and> length (u_content q) = 15000) \<and>
   (\<exists>r. scrape_webpage (page_env long_page) [] (py ''http://h/'') = Some r \<and>
        length' r = 15001 \<and> length (content r) = 15001)"
proof -
  let ?r = "\<lparr>url = (py ''http://h/''), title = (py ''http://h/''), content = long_text, length' = 15001,
           timestamp = (py ''2024-01-01T00:00:00'')\<rparr>"
  have r: "scrape_webpage (page_env long_page) [] (py ''http://h/'') = Some ?r"
    by (rule scrape_long_page)
  have "\<exists>q. scrape_url (page_env long_page) [] (py ''http://h/'') = Inr q"
    by (simp add: scrape_url_def page_env_def raise_for_status_def Let_def)
  then obtain q where q: "scrape_url (page_env long_page) [] (py ''http://h/'') = Inr q" ..
  note t = record_length [of "page_env long_page" "[]" "(py ''http://h/'')" ?r q]
  from t have "scrape_url (page_env long_page) [] (py ''http://h/'') = Inr q \<longrightarrow>
      (\<exists>r. scrape_webpage (page_env long_page) [] (py ''http://h/'') = Some r \<and>
           u_content q = take 15000 (content r) \<and>
           u_length q = int (length (content r)) \<and>
           length (u_content q) \<le> 15000 \<and>
           int (length (u_content q)) \<le> u_length q \<and>
           (u_length q = int (length (u_content q)) \<longleftrightarrow> length (content r) \<le> 15000))"
    by (rule conjunct2)
  with q obtain r' where r': "scrape_webpage (page_env long_page) [] (py ''http://h/'') = Some r'"
    "u_content q = take 15000 (content r')" "u_length q = int (length (content r'))"
    by blast
  have "r' = ?r" using r r'(1) by simp
  then have a: "u_length q = 15001" and b: "length (u_content q) = 15000"
    using r'(2,3) by (simp_all add: long_text_facts(5))
  have c: "length' ?r = 15001" and d: "length (content ?r) = 15001"
    by (simp_all add: long_text_facts(5))
  show ?thesis
    using q r a b c d by (intro conjI exI)
qed

end
